theory Spec2Isabelle
  imports Complex_Main "HOL-Library.Word"
begin

unbundle bit_operations_syntax

section \<open>The Go values the program works on\<close>

text \<open>
  A Go \<^verbatim>\<open>string\<close> and a \<^verbatim>\<open>[]byte\<close> are sequences of bytes; a \<^verbatim>\<open>rune\<close> is a code point
  (an \<^verbatim>\<open>int32\<close> that never wraps in this program, so it is an \<open>int\<close> here). A \<^verbatim>\<open>float64\<close>
  is a \<open>real\<close>: the rounding of IEEE arithmetic is not part of the model. An \<^verbatim>\<open>int\<close> count is
  an \<open>int\<close>.
\<close>

type_synonym byte = "8 word"
type_synonym rune = int

text \<open>The errors of the program; \<^verbatim>\<open>nil\<close> is \<open>None\<close> of \<open>error option\<close>.\<close>

datatype error =
    EOF
  | ErrUnexpectedEOF
  | Canceled
  | DeadlineExceeded
  | ReadError string
  | ConfigError string

fun error_Error :: "error \<Rightarrow> string" where
  "error_Error EOF = ''EOF''"
| "error_Error ErrUnexpectedEOF = ''unexpected EOF''"
| "error_Error Canceled = ''context canceled''"
| "error_Error DeadlineExceeded = ''context deadline exceeded''"
| "error_Error (ReadError s) = s"
| "error_Error (ConfigError s) = s"

text \<open>
  A \<^verbatim>\<open>context.Context\<close> is what \<^verbatim>\<open>ctx.Err()\<close> returns during the call: \<open>None\<close> for a
  context that is not cancelled (then \<^verbatim>\<open>ctx.Done()\<close> never fires), the error otherwise.
\<close>

type_synonym Context = "error option"

text \<open>
  An \<^verbatim>\<open>io.Reader\<close> is the finite script of what its \<^verbatim>\<open>Read\<close> calls return, in order: the
  bytes put into the buffer and the error. Once the script is used up, \<^verbatim>\<open>Read\<close> returns
  \<^verbatim>\<open>(0, io.EOF)\<close>, as \<^verbatim>\<open>strings.Reader\<close> and \<^verbatim>\<open>bytes.Reader\<close> do.
\<close>

type_synonym reader = "(byte list \<times> error option) list"

section \<open>Results and configurations\<close>

datatype StreamingMode = ChunkByChunk | LineByLine | WordByWord

datatype detail = DString string | DInt int | DFloat real | DMode StreamingMode

text \<open>\<^verbatim>\<open>domain.Result\<close> (internal/core/domain/model.go).\<close>

record Result =
  r_Name :: string
  r_Score :: real
  r_Passed :: bool
  r_OriginalLength :: int
  r_AugmentedLength :: int
  r_LengthRatio :: real
  r_Threshold :: real
  r_Details :: "string \<rightharpoonup> detail"

text \<open>
  \<^verbatim>\<open>ports.StreamResult\<close>. \<^verbatim>\<open>ProcessingTime\<close> is wall-clock time and is left out;
  \<^verbatim>\<open>BytesProcessed\<close> is never set by \<^verbatim>\<open>ComputeStreaming\<close> and keeps its zero value.
\<close>

record StreamResult =
  sr_Name :: string
  sr_Score :: real
  sr_Passed :: bool
  sr_OriginalLength :: int
  sr_AugmentedLength :: int
  sr_LengthRatio :: real
  sr_Threshold :: real
  sr_Details :: "string \<rightharpoonup> detail"
  sr_BytesProcessed :: int

text \<open>\<^verbatim>\<open>length.SimilarityConfig\<close> (internal/core/length/similarity.go).\<close>

record SimilarityConfig =
  Threshold :: real
  MaxDiffRatio :: real

text \<open>\<^verbatim>\<open>stream.StreamingConfig\<close> (internal/adapters/stream/processor.go).\<close>

record StreamingConfig =
  sc_Threshold :: real
  sc_MaxDiffRatio :: real
  sc_ChunkSize :: int
  sc_Mode :: StreamingMode

section \<open>What the program takes from the Go library\<close>

subsection \<open>The \<^verbatim>\<open>unicode\<close> package\<close>

text \<open>
  The tables of Go's \<^verbatim>\<open>unicode\<close> package are not part of the repository. On ASCII their
  values are written out (the categories of the Unicode standard); beyond ASCII they are a
  parameter of the model.
\<close>

record unicode_tables =
  t_IsPunct :: "rune \<Rightarrow> bool"
  t_IsSpace :: "rune \<Rightarrow> bool"
  t_IsUpper :: "rune \<Rightarrow> bool"
  t_IsLetter :: "rune \<Rightarrow> bool"
  t_IsNumber :: "rune \<Rightarrow> bool"
  t_ToLower :: "rune \<Rightarrow> rune"

definition is_ascii_rune :: "rune \<Rightarrow> bool" where
  "is_ascii_rune r = (0 \<le> r \<and> r < 0x80)"

text \<open>The ASCII characters of the categories P*: \<^verbatim>\<open>!"#%&'()*,-./:;?@[\]_{}\<close>.\<close>

definition ascii_punct :: "rune set" where
  "ascii_punct = {0x21, 0x22, 0x23, 0x25, 0x26, 0x27, 0x28, 0x29, 0x2A, 0x2C, 0x2D, 0x2E, 0x2F,
                  0x3A, 0x3B, 0x3F, 0x40, 0x5B, 0x5C, 0x5D, 0x5F, 0x7B, 0x7D}"

definition unicode_IsPunct :: "unicode_tables \<Rightarrow> rune \<Rightarrow> bool" where
  "unicode_IsPunct U r = (if is_ascii_rune r then r \<in> ascii_punct else t_IsPunct U r)"

definition unicode_IsSpace :: "unicode_tables \<Rightarrow> rune \<Rightarrow> bool" where
  "unicode_IsSpace U r =
     (if is_ascii_rune r then (0x09 \<le> r \<and> r \<le> 0x0D) \<or> r = 0x20 else t_IsSpace U r)"

definition unicode_IsUpper :: "unicode_tables \<Rightarrow> rune \<Rightarrow> bool" where
  "unicode_IsUpper U r = (if is_ascii_rune r then 0x41 \<le> r \<and> r \<le> 0x5A else t_IsUpper U r)"

definition unicode_IsLetter :: "unicode_tables \<Rightarrow> rune \<Rightarrow> bool" where
  "unicode_IsLetter U r =
     (if is_ascii_rune r then (0x41 \<le> r \<and> r \<le> 0x5A) \<or> (0x61 \<le> r \<and> r \<le> 0x7A)
      else t_IsLetter U r)"

definition unicode_IsNumber :: "unicode_tables \<Rightarrow> rune \<Rightarrow> bool" where
  "unicode_IsNumber U r = (if is_ascii_rune r then 0x30 \<le> r \<and> r \<le> 0x39 else t_IsNumber U r)"

definition unicode_ToLower :: "unicode_tables \<Rightarrow> rune \<Rightarrow> rune" where
  "unicode_ToLower U r =
     (if is_ascii_rune r then (if 0x41 \<le> r \<and> r \<le> 0x5A then r + 0x20 else r)
      else t_ToLower U r)"

definition ReplacementChar :: rune where
  "ReplacementChar = 0xFFFD"

text \<open>The Unicode scalar values: the code points that are not surrogates.\<close>

definition valid_rune :: "rune \<Rightarrow> bool" where
  "valid_rune r = (0 \<le> r \<and> r \<le> 0x10FFFF \<and> \<not> (0xD800 \<le> r \<and> r \<le> 0xDFFF))"

subsection \<open>UTF-8 as the Go runtime decodes and encodes it\<close>

text \<open>
  \<^verbatim>\<open>utf8.DecodeRune\<close>, which \<^verbatim>\<open>for _, r := range s\<close> and \<^verbatim>\<open>[]rune(s)\<close> follow: the rune
  at the head of the bytes and its width; an invalid or incomplete sequence is
  \<^verbatim>\<open>RuneError\<close> (U+FFFD) of width 1.
\<close>

fun utf8_DecodeRune :: "byte list \<Rightarrow> rune \<times> nat" where
  "utf8_DecodeRune [] = (ReplacementChar, 0)"
| "utf8_DecodeRune (p0 # ps) =
     (if p0 < 0x80 then (uint p0, 1)
      else if p0 < 0xC2 \<or> 0xF4 < p0 then (ReplacementChar, 1)
      else
        let sz = (if p0 < 0xE0 then 2 else if p0 < 0xF0 then 3 else 4 :: nat);
            lo = (if p0 = 0xE0 then 0xA0 else if p0 = 0xF0 then 0x90 else 0x80 :: byte);
            hi = (if p0 = 0xED then 0x9F else if p0 = 0xF4 then 0x8F else 0xBF :: byte)
        in if length (p0 # ps) < sz then (ReplacementChar, 1)
           else
             let b1 = ps ! 0 in
             if b1 < lo \<or> hi < b1 then (ReplacementChar, 1)
             else if sz \<le> 2 then
               (uint (push_bit 6 (ucast (p0 AND 0x1F) :: 32 word) OR ucast (b1 AND 0x3F)), 2)
             else
               let b2 = ps ! 1 in
               if b2 < 0x80 \<or> 0xBF < b2 then (ReplacementChar, 1)
               else if sz \<le> 3 then
                 (uint (push_bit 12 (ucast (p0 AND 0x0F) :: 32 word)
                        OR push_bit 6 (ucast (b1 AND 0x3F)) OR ucast (b2 AND 0x3F)), 3)
               else
                 let b3 = ps ! 2 in
                 if b3 < 0x80 \<or> 0xBF < b3 then (ReplacementChar, 1)
                 else
                   (uint (push_bit 18 (ucast (p0 AND 0x07) :: 32 word)
                          OR push_bit 12 (ucast (b1 AND 0x3F))
                          OR push_bit 6 (ucast (b2 AND 0x3F)) OR ucast (b3 AND 0x3F)), 4))"

declare utf8_DecodeRune.simps(2) [simp del]

text \<open>The runes of a string, as \<^verbatim>\<open>range\<close> and \<^verbatim>\<open>[]rune(s)\<close> give them.\<close>

fun runes :: "byte list \<Rightarrow> rune list" where
  "runes [] = []"
| "runes (b # bs) =
     (case utf8_DecodeRune (b # bs) of (r, n) \<Rightarrow> r # runes (drop (n - 1) bs))"

text \<open>
  \<^verbatim>\<open>utf8.AppendRune\<close>, which \<^verbatim>\<open>strings.Builder.WriteRune\<close> and \<^verbatim>\<open>string(r)\<close> follow: a
  rune out of range or a surrogate is written as U+FFFD.
\<close>

definition utf8_EncodeRune :: "rune \<Rightarrow> byte list" where
  "utf8_EncodeRune r =
     (if 0 \<le> r \<and> r \<le> 0x7F then [word_of_int r]
      else if 0 \<le> r \<and> r \<le> 0x7FF then
        [0xC0 OR word_of_int (drop_bit 6 r), 0x80 OR (word_of_int r AND 0x3F)]
      else if r < 0 \<or> 0x10FFFF < r \<or> (0xD800 \<le> r \<and> r \<le> 0xDFFF) then [0xEF, 0xBF, 0xBD]
      else if r \<le> 0xFFFF then
        [0xE0 OR word_of_int (drop_bit 12 r), 0x80 OR (word_of_int (drop_bit 6 r) AND 0x3F),
         0x80 OR (word_of_int r AND 0x3F)]
      else
        [0xF0 OR word_of_int (drop_bit 18 r), 0x80 OR (word_of_int (drop_bit 12 r) AND 0x3F),
         0x80 OR (word_of_int (drop_bit 6 r) AND 0x3F), 0x80 OR (word_of_int r AND 0x3F)])"

definition encode_runes :: "rune list \<Rightarrow> byte list" where
  "encode_runes rs = concat (map utf8_EncodeRune rs)"

text \<open>\<^verbatim>\<open>len([]rune(s))\<close>.\<close>

definition rune_count :: "byte list \<Rightarrow> int" where
  "rune_count s = int (length (runes s))"

subsection \<open>The \<^verbatim>\<open>strings\<close> package\<close>

text \<open>
  \<^verbatim>\<open>strings.FieldsFunc\<close>: the maximal runs of runes that do not satisfy \<open>f\<close>. \<open>cur\<close> is the
  span \<^verbatim>\<open>s[start:end]\<close> collected so far (empty while \<^verbatim>\<open>start < 0\<close>).
\<close>

fun FieldsFunc :: "(rune \<Rightarrow> bool) \<Rightarrow> byte list \<Rightarrow> byte list \<Rightarrow> byte list list" where
  "FieldsFunc f cur [] = (if cur = [] then [] else [cur])"
| "FieldsFunc f cur (b # bs) =
     (case utf8_DecodeRune (b # bs) of (r, n) \<Rightarrow>
        if f r then (if cur = [] then [] else [cur]) @ FieldsFunc f [] (drop (n - 1) bs)
        else FieldsFunc f (cur @ take n (b # bs)) (drop (n - 1) bs))"

text \<open>
  \<^verbatim>\<open>strings.Fields\<close> splits around \<^verbatim>\<open>unicode.IsSpace\<close>; its ASCII fast path gives the same
  fields.
\<close>

definition strings_Fields :: "unicode_tables \<Rightarrow> byte list \<Rightarrow> byte list list" where
  "strings_Fields U s = FieldsFunc (unicode_IsSpace U) [] s"

text \<open>
  \<^verbatim>\<open>strings.ToLower\<close>: bytewise on an ASCII string, \<^verbatim>\<open>strings.Map(unicode.ToLower, s)\<close>
  otherwise.
\<close>

definition strings_ToLower :: "unicode_tables \<Rightarrow> byte list \<Rightarrow> byte list" where
  "strings_ToLower U s =
     (if \<forall>c \<in> set s. c < 0x80
      then map (\<lambda>c. if 0x41 \<le> c \<and> c \<le> 0x5A then c + 0x20 else c) s
      else encode_runes (map (unicode_ToLower U) (runes s)))"

text \<open>The bytes of an ASCII string literal.\<close>

definition bytes_of :: "string \<Rightarrow> byte list" where
  "bytes_of s = map (\<lambda>c. of_nat (of_char c)) s"

section \<open>The non-streaming word-count calculator\<close>

text \<open>\<^verbatim>\<open>SimilarityConfig.Validate\<close> (internal/core/length/similarity.go).\<close>

definition Validate :: "SimilarityConfig \<Rightarrow> error option" where
  "Validate c =
     (if Threshold c < 0 \<or> Threshold c > 1
      then Some (ConfigError ''threshold must be between 0 and 1'')
      else if MaxDiffRatio c \<le> 0
      then Some (ConfigError ''maxDiffRatio must be greater than 0'')
      else None)"

text \<open>\<^verbatim>\<open>length.Calculator\<close>; the logger only receives messages and is left out.\<close>

record Calculator =
  calc_config :: SimilarityConfig
  calc_normalizer :: "byte list \<Rightarrow> byte list"

definition NewCalculator ::
  "SimilarityConfig \<Rightarrow> (byte list \<Rightarrow> byte list) \<Rightarrow> error + Calculator" where
  "NewCalculator config normalizer =
     (case Validate config of
        Some err \<Rightarrow> Inl err
      | None \<Rightarrow> Inr \<lparr>calc_config = config, calc_normalizer = normalizer\<rparr>)"

text \<open>
  \<^verbatim>\<open>Calculator.Compute\<close>. A result built from a literal that names only some fields has the
  zero value in the others.
\<close>

definition Compute ::
  "unicode_tables \<Rightarrow> Calculator \<Rightarrow> Context \<Rightarrow> byte list \<Rightarrow> byte list \<Rightarrow> Result" where
  "Compute U c ctx original augmented =
     (let normalizedOriginal = calc_normalizer c original;
          normalizedAugmented = calc_normalizer c augmented
      in
      if ctx \<noteq> None then
        \<lparr>r_Name = ''length_similarity'', r_Score = 0, r_Passed = False,
         r_OriginalLength = 0, r_AugmentedLength = 0, r_LengthRatio = 0, r_Threshold = 0,
         r_Details = [''error'' \<mapsto> DString ''computation cancelled'']\<rparr>
      else
        let origLen = int (length (strings_Fields U normalizedOriginal));
            augLen = int (length (strings_Fields U normalizedAugmented))
        in
        if origLen = 0 then
          \<lparr>r_Name = ''length_similarity'', r_Score = 0, r_Passed = False,
           r_OriginalLength = 0, r_AugmentedLength = 0, r_LengthRatio = 0, r_Threshold = 0,
           r_Details = [''error'' \<mapsto> DString ''original text has zero words'']\<rparr>
        else
          let lengthRatio =
                (if origLen > augLen then real_of_int augLen / real_of_int origLen
                 else real_of_int origLen / real_of_int augLen);
              diff = \<bar>real_of_int (origLen - augLen)\<bar>;
              diffRatio0 = diff / (real_of_int origLen * MaxDiffRatio (calc_config c));
              diffRatio = (if diffRatio0 > 1.0 then 1.0 else diffRatio0);
              scaledScore = 1.0 - diffRatio;
              passed = (scaledScore \<ge> Threshold (calc_config c))
          in
          \<lparr>r_Name = ''length_similarity'', r_Score = scaledScore, r_Passed = passed,
           r_OriginalLength = origLen, r_AugmentedLength = augLen,
           r_LengthRatio = lengthRatio, r_Threshold = Threshold (calc_config c),
           r_Details = [''original_length'' \<mapsto> DInt origLen,
                        ''augmented_length'' \<mapsto> DInt augLen,
                        ''length_ratio'' \<mapsto> DFloat lengthRatio,
                        ''threshold'' \<mapsto> DFloat (Threshold (calc_config c))]\<rparr>)"

section \<open>The public constructor \<^verbatim>\<open>lengthsimilarity.New\<close>\<close>

text \<open>
  \<^verbatim>\<open>Config\<close> and the functional options of length\_similarity.go. Of the logger only its
  presence matters to \<^verbatim>\<open>New\<close>.
\<close>

record Config =
  cfg_Threshold :: real
  cfg_MaxDiffRatio :: real
  cfg_Logger :: bool
  cfg_Normalizer :: "(byte list \<Rightarrow> byte list) option"
  cfg_Precision :: int

datatype ls_Option =
    WithThreshold real
  | WithMaxDiffRatio real
  | WithLogger
  | WithNormalizer "byte list \<Rightarrow> byte list"

fun apply_Option :: "ls_Option \<Rightarrow> Config \<Rightarrow> Config" where
  "apply_Option (WithThreshold th) cfg = cfg\<lparr>cfg_Threshold := th\<rparr>"
| "apply_Option (WithMaxDiffRatio ratio) cfg = cfg\<lparr>cfg_MaxDiffRatio := ratio\<rparr>"
| "apply_Option WithLogger cfg = cfg\<lparr>cfg_Logger := True\<rparr>"
| "apply_Option (WithNormalizer n) cfg = cfg\<lparr>cfg_Normalizer := Some n\<rparr>"

definition DefaultThreshold :: real where
  "DefaultThreshold = 0.7"

definition DefaultMaxDiffRatio :: real where
  "DefaultMaxDiffRatio = 0.3"

text \<open>
  \<^verbatim>\<open>New\<close>. \<open>defaultLogger\<close> is what \<^verbatim>\<open>createDefaultLogger\<close> returns as its error (the
  logging library is not part of the repository).
\<close>

record LengthSimilarity =
  ls_config :: Config

definition New :: "error option \<Rightarrow> ls_Option list \<Rightarrow> error + LengthSimilarity" where
  "New defaultLogger opts =
     (let cfg = fold apply_Option opts
                  \<lparr>cfg_Threshold = DefaultThreshold, cfg_MaxDiffRatio = DefaultMaxDiffRatio,
                   cfg_Logger = False, cfg_Normalizer = None, cfg_Precision = 0\<rparr>
      in
      if cfg_Threshold cfg < 0 \<or> cfg_Threshold cfg > 1
      then Inl (ConfigError ''threshold must be between 0 and 1'')
      else if cfg_MaxDiffRatio cfg \<le> 0
      then Inl (ConfigError ''maxDiffRatio must be greater than 0'')
      else if \<not> cfg_Logger cfg then
        (case defaultLogger of
           Some err \<Rightarrow> Inl err
         | None \<Rightarrow> Inr \<lparr>ls_config = cfg\<lparr>cfg_Logger := True\<rparr>\<rparr>)
      else Inr \<lparr>ls_config = cfg\<rparr>)"

section \<open>The streaming calculator\<close>

text \<open>
  \<^verbatim>\<open>stream.StreamingCalculator\<close> and \<^verbatim>\<open>NewStreamingCalculator\<close>
  (internal/adapters/stream/processor.go). The processor it builds is the argument \<open>P\<close> of
  \<open>ComputeStreaming\<close> below.
\<close>

record StreamingCalculator =
  ssc_config :: StreamingConfig
  ssc_normalizer :: "byte list \<Rightarrow> byte list"

definition NewStreamingCalculator ::
  "StreamingConfig \<Rightarrow> (byte list \<Rightarrow> byte list) \<Rightarrow> error + StreamingCalculator" where
  "NewStreamingCalculator config normalizer =
     Inr \<lparr>ssc_config = config, ssc_normalizer = normalizer\<rparr>"

text \<open>
  A \<^verbatim>\<open>ports.StreamProcessor\<close>: \<^verbatim>\<open>ProcessStream(ctx, reader, mode)\<close> returns the count and
  the error, and leaves the reader where its reads stopped.
\<close>

type_synonym StreamProcessor =
  "Context \<Rightarrow> reader \<Rightarrow> StreamingMode \<Rightarrow> (int \<times> error option) \<times> reader"

definition error_result :: "string \<Rightarrow> error \<Rightarrow> StreamResult" where
  "error_result what err =
     \<lparr>sr_Name = ''streaming_similarity'', sr_Score = 0, sr_Passed = False,
      sr_OriginalLength = 0, sr_AugmentedLength = 0, sr_LengthRatio = 0, sr_Threshold = 0,
      sr_Details = [''error'' \<mapsto> DString (what @ error_Error err)],
      sr_BytesProcessed = 0\<rparr>"

text \<open>
  \<^verbatim>\<open>ComputeStreaming\<close>: the body is the same text in \<^verbatim>\<open>StreamingCalculator\<close>
  (processor.go) and in \<^verbatim>\<open>StreamingCalculatorExtended\<close> (streamingcalculator.go); they
  differ in the processor they call. The two readers are returned as the call leaves them.
\<close>

definition ComputeStreaming ::
  "StreamingConfig \<Rightarrow> StreamProcessor \<Rightarrow> Context \<Rightarrow> reader \<Rightarrow> reader
     \<Rightarrow> StreamResult \<times> reader \<times> reader" where
  "ComputeStreaming cfg P ctx original augmented =
     (case P ctx original (sc_Mode cfg) of ((origCount, err), original') \<Rightarrow>
      if err \<noteq> None \<and> err \<noteq> Some EOF then
        (error_result ''error processing original stream: '' (the err), original', augmented)
      else
        case P ctx augmented (sc_Mode cfg) of ((augCount, err2), augmented') \<Rightarrow>
        if err2 \<noteq> None \<and> err2 \<noteq> Some EOF then
          (error_result ''error processing augmented stream: '' (the err2),
           original', augmented')
        else if origCount = 0 \<and> augCount = 0 then
          (\<lparr>sr_Name = ''streaming_similarity'', sr_Score = 1.0, sr_Passed = True,
            sr_OriginalLength = 0, sr_AugmentedLength = 0, sr_LengthRatio = 1.0,
            sr_Threshold = sc_Threshold cfg,
            sr_Details = [''note'' \<mapsto> DString ''both texts are empty, considered identical''],
            sr_BytesProcessed = 0\<rparr>, original', augmented')
        else if origCount = 0 then
          (\<lparr>sr_Name = ''streaming_similarity'', sr_Score = 0.0, sr_Passed = False,
            sr_OriginalLength = 0, sr_AugmentedLength = augCount, sr_LengthRatio = 0.0,
            sr_Threshold = sc_Threshold cfg,
            sr_Details = [''warning'' \<mapsto> DString ''original text has zero length''],
            sr_BytesProcessed = 0\<rparr>, original', augmented')
        else
          let lengthRatio =
                (if origCount > augCount then real_of_int augCount / real_of_int origCount
                 else real_of_int origCount / real_of_int augCount);
              diff = \<bar>real_of_int (origCount - augCount)\<bar>;
              diffRatio0 = diff / (real_of_int origCount * sc_MaxDiffRatio cfg);
              diffRatio = (if diffRatio0 > 1.0 then 1.0 else diffRatio0);
              scaledScore = 1.0 - diffRatio;
              passed = (scaledScore \<ge> sc_Threshold cfg)
          in
          (\<lparr>sr_Name = ''streaming_similarity'', sr_Score = scaledScore, sr_Passed = passed,
            sr_OriginalLength = origCount, sr_AugmentedLength = augCount,
            sr_LengthRatio = lengthRatio, sr_Threshold = sc_Threshold cfg,
            sr_Details = [''original_length'' \<mapsto> DInt origCount,
                          ''augmented_length'' \<mapsto> DInt augCount,
                          ''length_ratio'' \<mapsto> DFloat lengthRatio,
                          ''threshold'' \<mapsto> DFloat (sc_Threshold cfg),
                          ''mode'' \<mapsto> DMode (sc_Mode cfg)],
            sr_BytesProcessed = 0\<rparr>, original', augmented'))"

section \<open>The word processor\<close>

subsection \<open>Word characters and the hand-written decoder\<close>

text \<open>The table \<^verbatim>\<open>ASCIIWordChar\<close> as \<^verbatim>\<open>init\<close> fills it, for the indices 0 to 127.\<close>

definition ASCIIWordChar :: "nat \<Rightarrow> bool" where
  "ASCIIWordChar i =
     ((0x61 \<le> i \<and> i \<le> 0x7A) \<or> (0x41 \<le> i \<and> i \<le> 0x5A) \<or> (0x30 \<le> i \<and> i \<le> 0x39)
      \<or> i = 0x5F \<or> i = 0x2D \<or> i = 0x27)"

definition IsASCIIWordChar :: "byte \<Rightarrow> bool" where
  "IsASCIIWordChar b = (if b < 128 then ASCIIWordChar (unat b) else False)"

definition IsWordChar :: "unicode_tables \<Rightarrow> rune \<Rightarrow> bool" where
  "IsWordChar U r =
     (if r < 128 then ASCIIWordChar (nat r)
      else unicode_IsLetter U r \<or> unicode_IsNumber U r \<or> r = 0x5F \<or> r = 0x2D \<or> r = 0x27)"

definition IsASCIIOnly :: "byte list \<Rightarrow> bool" where
  "IsASCIIOnly data = list_all (\<lambda>b. \<not> b \<ge> 128) data"

text \<open>
  \<^verbatim>\<open>DecodeRune\<close> of the word processor: the rune at the head of \<open>b\<close> and the number of
  bytes it takes. It accepts every lead byte from 0xC0 to 0xF7 and checks only that the
  following bytes are continuation bytes.
\<close>

fun DecodeRune :: "byte list \<Rightarrow> rune \<times> nat" where
  "DecodeRune [] = (0, 0)"
| "DecodeRune (b0 # bs) =
     (if b0 < 0x80 then (uint b0, 1)
      else if b0 < 0xC0 \<or> b0 > 0xF7 then (ReplacementChar, 1)
      else if b0 < 0xE0 then
        (if length (b0 # bs) < 2 \<or> (bs ! 0) AND 0xC0 \<noteq> 0x80 then (ReplacementChar, 1)
         else (uint (push_bit 6 (ucast (b0 AND 0x1F) :: 32 word) OR ucast ((bs ! 0) AND 0x3F)), 2))
      else if b0 < 0xF0 then
        (if length (b0 # bs) < 3 \<or> (bs ! 0) AND 0xC0 \<noteq> 0x80 \<or> (bs ! 1) AND 0xC0 \<noteq> 0x80
         then (ReplacementChar, 1)
         else (uint (push_bit 12 (ucast (b0 AND 0x0F) :: 32 word)
                     OR push_bit 6 (ucast ((bs ! 0) AND 0x3F)) OR ucast ((bs ! 1) AND 0x3F)), 3))
      else
        (if length (b0 # bs) < 4 \<or> (bs ! 0) AND 0xC0 \<noteq> 0x80 \<or> (bs ! 1) AND 0xC0 \<noteq> 0x80
            \<or> (bs ! 2) AND 0xC0 \<noteq> 0x80
         then (ReplacementChar, 1)
         else (uint (push_bit 18 (ucast (b0 AND 0x07) :: 32 word)
                     OR push_bit 12 (ucast ((bs ! 0) AND 0x3F))
                     OR push_bit 6 (ucast ((bs ! 1) AND 0x3F)) OR ucast ((bs ! 2) AND 0x3F)), 4)))"

declare DecodeRune.simps(2) [simp del]

text \<open>
  \<^verbatim>\<open>HandleUTF8(data, pos)\<close>, given the bytes \<^verbatim>\<open>data[pos:]\<close> (never empty where it is
  called): the rune, its size and whether it is a word character.
\<close>

definition HandleUTF8 :: "unicode_tables \<Rightarrow> byte list \<Rightarrow> rune \<times> nat \<times> bool" where
  "HandleUTF8 U d =
     (if hd d < 128 then (uint (hd d), 1, ASCIIWordChar (unat (hd d)))
      else case DecodeRune d of (r, sz) \<Rightarrow> (r, sz, IsWordChar U r))"

subsection \<open>The sequential path\<close>

text \<open>
  The processors are modelled as \<^verbatim>\<open>ProcessStream\<close> calls them: with no writer. The
  variable \<^verbatim>\<open>wordStart\<close> is only read to write a word out and is left out.

  The two scanning loops of \<^verbatim>\<open>processWordsOptimized\<close> over one chunk, on the pair
  \<open>(wordCount, inWord)\<close>.
\<close>

fun scanWordsASCII :: "byte list \<Rightarrow> int \<times> bool \<Rightarrow> int \<times> bool" where
  "scanWordsASCII [] (wordCount, inWord) = (wordCount, inWord)"
| "scanWordsASCII (b # bs) (wordCount, inWord) =
     (if IsASCIIWordChar b then scanWordsASCII bs (wordCount, True)
      else if inWord then scanWordsASCII bs (wordCount + 1, False)
      else scanWordsASCII bs (wordCount, inWord))"

fun scanWordsUTF8 :: "unicode_tables \<Rightarrow> byte list \<Rightarrow> int \<times> bool \<Rightarrow> int \<times> bool" where
  "scanWordsUTF8 U [] (wordCount, inWord) = (wordCount, inWord)"
| "scanWordsUTF8 U (b # bs) (wordCount, inWord) =
     (case HandleUTF8 U (b # bs) of (r, sz, isChar) \<Rightarrow>
        if isChar then scanWordsUTF8 U (drop (sz - 1) bs) (wordCount, True)
        else if inWord then scanWordsUTF8 U (drop (sz - 1) bs) (wordCount + 1, False)
        else scanWordsUTF8 U (drop (sz - 1) bs) (wordCount, inWord))"

text \<open>
  The body of \<^verbatim>\<open>if n > 0\<close>: one chunk, on \<open>(wordCount, inWord, lastWordChar)\<close>.
\<close>

definition wordChunk ::
  "unicode_tables \<Rightarrow> byte list \<Rightarrow> int \<times> bool \<times> bool \<Rightarrow> int \<times> bool \<times> bool" where
  "wordChunk U chunk st =
     (case st of (wordCount, inWord, lastWordChar) \<Rightarrow>
      case (if IsASCIIOnly chunk
            then (scanWordsASCII chunk (wordCount, inWord), IsASCIIWordChar (last chunk))
            else (scanWordsUTF8 U chunk (wordCount, inWord),
                  snd (snd (HandleUTF8 U [last chunk]))))
      of ((wordCount1, inWord1), lastWordChar1) \<Rightarrow>
        if inWord1 \<and> \<not> lastWordChar1 then (wordCount1 + 1, False, lastWordChar1)
        else (wordCount1, inWord1, lastWordChar1))"

definition ContextCheckFrequency_words :: nat where
  "ContextCheckFrequency_words = 5000"

text \<open>
  The \<^verbatim>\<open>for\<close> loop of \<^verbatim>\<open>processWordsOptimized\<close>, one iteration per \<^verbatim>\<open>Read\<close>; \<open>cnt\<close> is
  \<^verbatim>\<open>contextCheckCounter\<close>. The result is \<open>(wordCount, bytesProcessed, err)\<close> and what is
  left of the reader.
\<close>

fun processWordsLoop ::
  "unicode_tables \<Rightarrow> Context \<Rightarrow> reader \<Rightarrow> nat \<Rightarrow> int \<times> bool \<times> bool \<Rightarrow> int
     \<Rightarrow> (int \<times> int \<times> error option) \<times> reader" where
  "processWordsLoop U ctx [] cnt st bytesProcessed =
     (if Suc cnt \<ge> ContextCheckFrequency_words \<and> ctx \<noteq> None
      then ((fst st, bytesProcessed, ctx), [])
      else ((if fst (snd st) then fst st + 1 else fst st, bytesProcessed, None), []))"
| "processWordsLoop U ctx ((chunk, err) # rd) cnt st bytesProcessed =
     (if Suc cnt \<ge> ContextCheckFrequency_words \<and> ctx \<noteq> None
      then ((fst st, bytesProcessed, ctx), (chunk, err) # rd)
      else
        let cnt1 = (if Suc cnt \<ge> ContextCheckFrequency_words then 0 else Suc cnt);
            st1 = (if length chunk > 0 then wordChunk U chunk st else st);
            bytes1 = bytesProcessed + int (length chunk)
        in case err of
             Some e \<Rightarrow>
               if e \<noteq> EOF then ((fst st1, bytes1, Some e), rd)
               else ((if fst (snd st1) then fst st1 + 1 else fst st1, bytes1, None), rd)
           | None \<Rightarrow> processWordsLoop U ctx rd cnt1 st1 bytes1)"

definition processWordsOptimized ::
  "unicode_tables \<Rightarrow> Context \<Rightarrow> reader \<Rightarrow> (int \<times> int \<times> error option) \<times> reader" where
  "processWordsOptimized U ctx rd = processWordsLoop U ctx rd 0 (0, False, False) 0"

subsection \<open>The parallel path\<close>

text \<open>
  The parallel paths are modelled for a context that is not cancelled. The goroutines and
  channels are not modelled: the producer's jobs are a list, every job is processed by one
  worker, and the consumer adds every result exactly once (in \<^verbatim>\<open>ChunkID\<close> order), so the
  total does not depend on the number of workers.
\<close>

record WordJob =
  Chunk :: "byte list"
  ChunkID :: int
  StartWord :: bool

record WordJobResult =
  wr_WordCount :: int
  wr_ChunkID :: int
  wr_EndWord :: bool
  wr_Error :: "error option"

text \<open>
  The producer goroutine: the jobs it sends, what it puts on \<^verbatim>\<open>errChan\<close> and on
  \<^verbatim>\<open>bytesProcessedChan\<close>, and the rest of the reader.
\<close>

fun wordProducer ::
  "reader \<Rightarrow> int \<Rightarrow> bool \<Rightarrow> int \<Rightarrow> (WordJob list \<times> error option \<times> int) \<times> reader" where
  "wordProducer [] chunkID inWord bytesProcessed = (([], None, bytesProcessed), [])"
| "wordProducer ((chunk, err) # rd) chunkID inWord bytesProcessed =
     (let sent = (if length chunk > 0
                  then [\<lparr>Chunk = chunk, ChunkID = chunkID, StartWord = inWord\<rparr>] else []);
          inWord1 = (if length chunk > 0 then IsASCIIWordChar (last chunk) else inWord);
          chunkID1 = (if length chunk > 0 then chunkID + 1 else chunkID);
          bytes1 = bytesProcessed + int (length chunk)
      in case err of
           Some e \<Rightarrow> ((sent, if e \<noteq> EOF then Some e else None, bytes1), rd)
         | None \<Rightarrow>
             (case wordProducer rd chunkID1 inWord1 bytes1 of
                ((jobs, e, b), rd') \<Rightarrow> ((sent @ jobs, e, b), rd')))"

text \<open>\<^verbatim>\<open>wordWorker\<close> on one job.\<close>

definition wordWorker :: "unicode_tables \<Rightarrow> WordJob \<Rightarrow> WordJobResult" where
  "wordWorker U job =
     (case (if IsASCIIOnly (Chunk job) then scanWordsASCII (Chunk job) (0, StartWord job)
            else scanWordsUTF8 U (Chunk job) (0, StartWord job))
      of (wordCount, inWord) \<Rightarrow>
        \<lparr>wr_WordCount = wordCount, wr_ChunkID = ChunkID job, wr_EndWord = inWord,
         wr_Error = None\<rparr>)"

definition processWordsParallel ::
  "unicode_tables \<Rightarrow> reader \<Rightarrow> (int \<times> int \<times> error option) \<times> reader" where
  "processWordsParallel U rd =
     (case wordProducer rd 0 False 0 of ((jobs, err, bytesProcessed), rd') \<Rightarrow>
        ((sum_list (map (\<lambda>job. wr_WordCount (wordWorker U job)) jobs), bytesProcessed, err),
         rd'))"

text \<open>\<^verbatim>\<open>ProcessWords\<close>, for a context that is not cancelled.\<close>

definition ProcessWords ::
  "unicode_tables \<Rightarrow> bool \<Rightarrow> reader \<Rightarrow> (int \<times> int \<times> error option) \<times> reader" where
  "ProcessWords U useParallel rd =
     (if useParallel then processWordsParallel U rd else processWordsOptimized U None rd)"

section \<open>The line processor\<close>

definition CR :: byte where
  "CR = 0x0D"

definition LF :: byte where
  "LF = 0x0A"

text \<open>
  \<^verbatim>\<open>processLine\<close> with no writer; \<open>N\<close> is the processor's normalizer. The new value of
  \<^verbatim>\<open>*charCount\<close> is returned.
\<close>

definition processLine :: "(byte list \<Rightarrow> byte list) \<Rightarrow> byte list \<Rightarrow> int \<Rightarrow> int" where
  "processLine N line charCount =
     (if length line = 0 then charCount else charCount + rune_count (N line))"

subsection \<open>The sequential path\<close>

text \<open>
  The inner loop of \<^verbatim>\<open>processLinesOptimized\<close> over the bytes \<^verbatim>\<open>chunk[i:]\<close>; \<open>cur\<close> is the
  slice \<^verbatim>\<open>chunk[lineStart:i]\<close>, so \<^verbatim>\<open>lineStart = i + 1\<close> empties it and \<^verbatim>\<open>continue\<close>
  keeps the byte in it. The result is \<^verbatim>\<open>chunk[lineStart:]\<close>, \<^verbatim>\<open>carryoverCR\<close> and
  \<^verbatim>\<open>charCount\<close> after the last byte.
\<close>

fun scanLines ::
  "(byte list \<Rightarrow> byte list) \<Rightarrow> byte list \<Rightarrow> byte list \<Rightarrow> bool \<Rightarrow> int
     \<Rightarrow> byte list \<times> bool \<times> int" where
  "scanLines N [] cur carryoverCR charCount = (cur, carryoverCR, charCount)"
| "scanLines N (b # rest) cur carryoverCR charCount =
     (if b = CR then
        (if rest \<noteq> [] \<and> hd rest = LF then scanLines N rest (cur @ [b]) True charCount
         else scanLines N rest [] False (processLine N cur charCount))
      else if b = LF then scanLines N rest [] False (processLine N cur charCount)
      else scanLines N rest (cur @ [b]) carryoverCR charCount)"

text \<open>
  The body of \<^verbatim>\<open>if n > 0\<close>, on \<open>(charCount, inLine, carryoverCR, lineBuffer)\<close>: the rest of
  the chunk after the last line break is appended to \<^verbatim>\<open>lineBuffer.Bytes\<close>.
\<close>

definition lineChunk ::
  "(byte list \<Rightarrow> byte list) \<Rightarrow> byte list \<Rightarrow> int \<times> bool \<times> bool \<times> byte list
     \<Rightarrow> int \<times> bool \<times> bool \<times> byte list" where
  "lineChunk N chunk st =
     (case st of (charCount, inLine, carryoverCR, lineBuffer) \<Rightarrow>
      case scanLines N chunk [] carryoverCR charCount of (tail, carryoverCR1, charCount1) \<Rightarrow>
        if tail \<noteq> [] then (charCount1, True, carryoverCR1, lineBuffer @ tail)
        else (charCount1, inLine, carryoverCR1, lineBuffer))"

definition ContextCheckFrequency_lines :: nat where
  "ContextCheckFrequency_lines = 500"

text \<open>What \<^verbatim>\<open>processLinesOptimized\<close> does at \<^verbatim>\<open>io.EOF\<close>.\<close>

definition finalLine ::
  "(byte list \<Rightarrow> byte list) \<Rightarrow> int \<times> bool \<times> bool \<times> byte list \<Rightarrow> int" where
  "finalLine N st =
     (case st of (charCount, inLine, carryoverCR, lineBuffer) \<Rightarrow>
        if inLine \<and> length lineBuffer > 0 then processLine N lineBuffer charCount
        else charCount)"

fun processLinesLoop ::
  "(byte list \<Rightarrow> byte list) \<Rightarrow> Context \<Rightarrow> reader \<Rightarrow> nat \<Rightarrow> int \<times> bool \<times> bool \<times> byte list
     \<Rightarrow> int \<Rightarrow> (int \<times> int \<times> error option) \<times> reader" where
  "processLinesLoop N ctx [] cnt st bytesProcessed =
     (if Suc cnt \<ge> ContextCheckFrequency_lines \<and> ctx \<noteq> None
      then ((fst st, bytesProcessed, ctx), [])
      else ((finalLine N st, bytesProcessed, None), []))"
| "processLinesLoop N ctx ((chunk, err) # rd) cnt st bytesProcessed =
     (if Suc cnt \<ge> ContextCheckFrequency_lines \<and> ctx \<noteq> None
      then ((fst st, bytesProcessed, ctx), (chunk, err) # rd)
      else
        let cnt1 = (if Suc cnt \<ge> ContextCheckFrequency_lines then 0 else Suc cnt);
            st1 = (if length chunk > 0 then lineChunk N chunk st else st);
            bytes1 = bytesProcessed + int (length chunk)
        in case err of
             Some e \<Rightarrow>
               if e \<noteq> EOF then ((fst st1, bytes1, Some e), rd)
               else ((finalLine N st1, bytes1, None), rd)
           | None \<Rightarrow> processLinesLoop N ctx rd cnt1 st1 bytes1)"

definition processLinesOptimized ::
  "(byte list \<Rightarrow> byte list) \<Rightarrow> Context \<Rightarrow> reader \<Rightarrow> (int \<times> int \<times> error option) \<times> reader" where
  "processLinesOptimized N ctx rd = processLinesLoop N ctx rd 0 (0, False, False, []) 0"

subsection \<open>The parallel path\<close>

text \<open>\<^verbatim>\<open>bytes.Split(s, []byte{sep})\<close>; \<open>cur\<close> is the piece collected so far.\<close>

fun bytes_Split :: "byte \<Rightarrow> byte list \<Rightarrow> byte list \<Rightarrow> byte list list" where
  "bytes_Split sep cur [] = [cur]"
| "bytes_Split sep cur (b # bs) =
     (if b = sep then cur # bytes_Split sep [] bs else bytes_Split sep (cur @ [b]) bs)"

text \<open>\<^verbatim>\<open>bytes.IndexByte\<close>, for a byte that occurs.\<close>

definition bytes_IndexByte :: "byte list \<Rightarrow> byte \<Rightarrow> nat" where
  "bytes_IndexByte s c = length (takeWhile (\<lambda>b. b \<noteq> c) s)"

text \<open>
  What the producer of \<^verbatim>\<open>processLinesParallel\<close> does with a chunk that holds a line feed
  or comes with no partial line: the lines it sends to the workers and the new
  \<^verbatim>\<open>partialLine\<close>. Slices are values here. In the source \<^verbatim>\<open>lastLine\<close> and the lines sent
  are views of the chunk buffer, which the next \<^verbatim>\<open>Read\<close> overwrites; the model says what
  the bytes were when the producer took them.
\<close>

definition producerChunk :: "byte list \<Rightarrow> byte list \<Rightarrow> byte list list \<times> byte list" where
  "producerChunk chunk partialLine =
     (case (if length partialLine > 0
            then ([partialLine @ take (bytes_IndexByte chunk LF) chunk],
                  bytes_Split LF [] (drop (bytes_IndexByte chunk LF + 1) chunk))
            else ([], bytes_Split LF [] chunk))
      of (completed, lines) \<Rightarrow>
        if last chunk \<noteq> LF
        then (completed @ filter (\<lambda>line. length line > 0) (butlast lines), last lines)
        else (completed @ filter (\<lambda>line. length line > 0) lines, []))"

text \<open>
  The producer goroutine. A chunk without line feed that follows a partial line extends it
  and \<^verbatim>\<open>continue\<close>s, past the error handling of that read.
\<close>

fun lineProducer ::
  "reader \<Rightarrow> byte list \<Rightarrow> int \<Rightarrow> (byte list list \<times> error option \<times> int) \<times> reader" where
  "lineProducer [] partialLine bytesProcessed =
     (((if length partialLine > 0 then [partialLine] else []), None, bytesProcessed), [])"
| "lineProducer ((chunk, err) # rd) partialLine bytesProcessed =
     (let bytes1 = bytesProcessed + int (length chunk) in
      if length chunk > 0 \<and> length partialLine > 0 \<and> LF \<notin> set chunk
      then lineProducer rd (partialLine @ chunk) bytes1
      else
        case (if length chunk > 0 then producerChunk chunk partialLine else ([], partialLine))
        of (sent, partialLine1) \<Rightarrow>
          case err of
            Some e \<Rightarrow>
              ((sent @ (if length partialLine1 > 0 then [partialLine1] else []),
                if e \<noteq> EOF then Some e else None, bytes1), rd)
          | None \<Rightarrow>
              (case lineProducer rd partialLine1 bytes1 of
                 ((jobs, e, b), rd') \<Rightarrow> ((sent @ jobs, e, b), rd')))"

text \<open>
  Every job is one line; a worker normalizes it and sends its rune count, and the consumer
  adds the counts up.
\<close>

definition processLinesParallel ::
  "(byte list \<Rightarrow> byte list) \<Rightarrow> reader \<Rightarrow> (int \<times> int \<times> error option) \<times> reader" where
  "processLinesParallel N rd =
     (case lineProducer rd [] 0 of ((jobs, err, bytesProcessed), rd') \<Rightarrow>
        ((sum_list (map (\<lambda>line. rune_count (N line)) jobs), bytesProcessed, err), rd'))"

text \<open>\<^verbatim>\<open>ProcessLines\<close>, for a context that is not cancelled.\<close>

definition ProcessLines ::
  "(byte list \<Rightarrow> byte list) \<Rightarrow> bool \<Rightarrow> reader \<Rightarrow> (int \<times> int \<times> error option) \<times> reader" where
  "ProcessLines N useParallel rd =
     (if useParallel then processLinesParallel N rd else processLinesOptimized N None rd)"

subsection \<open>Reading a text through a buffer\<close>

text \<open>
  A \<^verbatim>\<open>strings.Reader\<close> over \<open>text\<close> read with a buffer of \<open>k\<close> bytes: every \<^verbatim>\<open>Read\<close> gives
  the next \<open>k\<close> bytes (fewer at the end) and no error; after the last byte it gives
  \<^verbatim>\<open>(0, io.EOF)\<close>, the end of the script.
\<close>

function chunks :: "nat \<Rightarrow> byte list \<Rightarrow> byte list list" where
  "chunks k xs = (if k = 0 \<or> xs = [] then [] else take k xs # chunks k (drop k xs))"
  by pat_completeness auto
termination
  by (relation "measure (\<lambda>(k, xs). length xs)") auto

declare chunks.simps [simp del]

definition strings_Reader :: "nat \<Rightarrow> byte list \<Rightarrow> reader" where
  "strings_Reader k text = map (\<lambda>c. (c, None)) (chunks k text)"

section \<open>The normalizers\<close>

subsection \<open>\<^verbatim>\<open>DefaultNormalizer\<close> (internal/adapters/normalizer/default.go)\<close>

definition DefaultNormalizer_Normalize :: "unicode_tables \<Rightarrow> byte list \<Rightarrow> byte list" where
  "DefaultNormalizer_Normalize U text =
     encode_runes (map (\<lambda>r. if unicode_IsPunct U r then 0x20 else r)
                       (runes (strings_ToLower U text)))"

subsection \<open>\<^verbatim>\<open>AllocationEfficientNormalizer\<close> (allocation\_efficient.go)\<close>

text \<open>
  The decision table that \<^verbatim>\<open>NewAllocationEfficientNormalizer\<close> fills for the bytes 0 to
  127: the pair \<open>(replace, char)\<close>.
\<close>

definition asciiTable :: "unicode_tables \<Rightarrow> nat \<Rightarrow> bool \<times> byte" where
  "asciiTable U i =
     (if unicode_IsPunct U (int i) then (True, 0x20)
      else if unicode_IsUpper U (int i) then (True, word_of_int (unicode_ToLower U (int i)))
      else (False, 0))"

text \<open>
  The loop of \<^verbatim>\<open>normalizeASCII\<close>: the bytes appended to \<^verbatim>\<open>dest\<close> for the rest of
  \<^verbatim>\<open>src\<close>, given \<^verbatim>\<open>lastWasSpace\<close>.
\<close>

fun normalizeASCII_loop :: "unicode_tables \<Rightarrow> byte list \<Rightarrow> bool \<Rightarrow> byte list" where
  "normalizeASCII_loop U [] lastWasSpace = []"
| "normalizeASCII_loop U (b # src) lastWasSpace =
     (if b < 128 then
        (if fst (asciiTable U (unat b)) then
           (if snd (asciiTable U (unat b)) = 0x20 then
              (if \<not> lastWasSpace then 0x20 # normalizeASCII_loop U src True
               else normalizeASCII_loop U src lastWasSpace)
            else snd (asciiTable U (unat b)) # normalizeASCII_loop U src False)
         else b # normalizeASCII_loop U src False)
      else b # normalizeASCII_loop U src False)"

definition normalizeASCII :: "unicode_tables \<Rightarrow> byte list \<Rightarrow> byte list" where
  "normalizeASCII U src = normalizeASCII_loop U src False"

text \<open>\<^verbatim>\<open>decodeRune\<close> of the normalizer has the text of \<^verbatim>\<open>DecodeRune\<close> of the word processor.\<close>

definition decodeRune :: "byte list \<Rightarrow> rune \<times> nat" where
  "decodeRune b = DecodeRune b"

text \<open>The bytes \<^verbatim>\<open>normalizeUnicode\<close> appends for the lowercase rune \<open>lower\<close>.\<close>

definition appendLower :: "rune \<Rightarrow> byte list" where
  "appendLower lower =
     (if lower < 128 then [word_of_int lower]
      else if lower < 2048 then
        [word_of_int (0xC0 OR drop_bit 6 lower), word_of_int (0x80 OR (lower AND 0x3F))]
      else if lower < 65536 then
        [word_of_int (0xE0 OR drop_bit 12 lower),
         word_of_int (0x80 OR (drop_bit 6 lower AND 0x3F)),
         word_of_int (0x80 OR (lower AND 0x3F))]
      else
        [word_of_int (0xF0 OR drop_bit 18 lower),
         word_of_int (0x80 OR (drop_bit 12 lower AND 0x3F)),
         word_of_int (0x80 OR (drop_bit 6 lower AND 0x3F)),
         word_of_int (0x80 OR (lower AND 0x3F))])"

text \<open>The loop of \<^verbatim>\<open>normalizeUnicode\<close> over \<^verbatim>\<open>src[i:]\<close>.\<close>

fun normalizeUnicode_loop :: "unicode_tables \<Rightarrow> byte list \<Rightarrow> bool \<Rightarrow> byte list" where
  "normalizeUnicode_loop U [] lastWasSpace = []"
| "normalizeUnicode_loop U (b # src) lastWasSpace =
     (if b < 128 then
        (if fst (asciiTable U (unat b)) then
           (if snd (asciiTable U (unat b)) = 0x20 then
              (if \<not> lastWasSpace then 0x20 # normalizeUnicode_loop U src True
               else normalizeUnicode_loop U src lastWasSpace)
            else snd (asciiTable U (unat b)) # normalizeUnicode_loop U src False)
         else b # normalizeUnicode_loop U src False)
      else
        case decodeRune (b # src) of (r, sz) \<Rightarrow>
          if unicode_IsPunct U r \<or> unicode_IsSpace U r then
            (if \<not> lastWasSpace then 0x20 # normalizeUnicode_loop U (drop (sz - 1) src) True
             else normalizeUnicode_loop U (drop (sz - 1) src) lastWasSpace)
          else if unicode_IsUpper U r then
            appendLower (unicode_ToLower U r) @ normalizeUnicode_loop U (drop (sz - 1) src) False
          else take sz (b # src) @ normalizeUnicode_loop U (drop (sz - 1) src) False)"

definition normalizeUnicode :: "unicode_tables \<Rightarrow> byte list \<Rightarrow> byte list" where
  "normalizeUnicode U src = normalizeUnicode_loop U src False"

definition AllocationEfficientNormalizer_Normalize ::
  "unicode_tables \<Rightarrow> byte list \<Rightarrow> byte list" where
  "AllocationEfficientNormalizer_Normalize U text =
     (if length text = 0 then []
      else if list_all (\<lambda>b. \<not> b \<ge> 128) text then normalizeASCII U text
      else normalizeUnicode U text)"

subsection \<open>\<^verbatim>\<open>OptimizedNormalizer\<close> and \<^verbatim>\<open>FastNormalizer\<close>\<close>

text \<open>
  The table of \<^verbatim>\<open>NewOptimizedNormalizer\<close>: 0 keeps the byte, 1 replaces it with a space,
  2 converts it to lowercase.
\<close>

definition optTable :: "unicode_tables \<Rightarrow> nat \<Rightarrow> nat" where
  "optTable U i =
     (if unicode_IsPunct U (int i) \<or> unicode_IsSpace U (int i) then 1
      else if unicode_IsUpper U (int i) then 2
      else 0)"

fun optASCII_loop :: "unicode_tables \<Rightarrow> byte list \<Rightarrow> bool \<Rightarrow> byte list" where
  "optASCII_loop U [] lastWasSpace = []"
| "optASCII_loop U (b # text) lastWasSpace =
     (if optTable U (unat b) = 0 then b # optASCII_loop U text False
      else if optTable U (unat b) = 1 then
        (if \<not> lastWasSpace then 0x20 # optASCII_loop U text True
         else optASCII_loop U text lastWasSpace)
      else (b + (0x61 - 0x41)) # optASCII_loop U text False)"

text \<open>The slower path ranges over the runes of the text.\<close>

fun optUnicode_loop :: "unicode_tables \<Rightarrow> rune list \<Rightarrow> bool \<Rightarrow> byte list" where
  "optUnicode_loop U [] lastWasSpace = []"
| "optUnicode_loop U (r # rs) lastWasSpace =
     (if r < 128 then
        (if optTable U (nat r) = 0 then word_of_int r # optUnicode_loop U rs False
         else if optTable U (nat r) = 1 then
           (if \<not> lastWasSpace then 0x20 # optUnicode_loop U rs True
            else optUnicode_loop U rs lastWasSpace)
         else (word_of_int r + (0x61 - 0x41)) # optUnicode_loop U rs False)
      else if unicode_IsPunct U r \<or> unicode_IsSpace U r then
        (if \<not> lastWasSpace then 0x20 # optUnicode_loop U rs True
         else optUnicode_loop U rs lastWasSpace)
      else utf8_EncodeRune (unicode_ToLower U r) @ optUnicode_loop U rs False)"

definition OptimizedNormalizer_Normalize :: "unicode_tables \<Rightarrow> byte list \<Rightarrow> byte list" where
  "OptimizedNormalizer_Normalize U text =
     (if length text = 0 then []
      else if list_all (\<lambda>b. \<not> b \<ge> 128) text then optASCII_loop U text False
      else optUnicode_loop U (runes text) False)"

text \<open>The table of \<^verbatim>\<open>NewFastNormalizer\<close>: the pair \<open>(replace, char)\<close>, the character a rune.\<close>

definition fastTable :: "unicode_tables \<Rightarrow> nat \<Rightarrow> bool \<times> rune" where
  "fastTable U i =
     (if unicode_IsPunct U (int i) then (True, 0x20)
      else if unicode_IsUpper U (int i) then (True, unicode_ToLower U (int i))
      else (False, 0))"

definition FastNormalizer_Normalize :: "unicode_tables \<Rightarrow> byte list \<Rightarrow> byte list" where
  "FastNormalizer_Normalize U text =
     (if length text = 0 then []
      else if list_all (\<lambda>r. \<not> r \<ge> 128) (runes text) then
        encode_runes (map (\<lambda>r. if fst (fastTable U (nat r)) then snd (fastTable U (nat r)) else r)
                          (runes text))
      else
        encode_runes (map (\<lambda>r. if r < 128
                                then (if fst (fastTable U (nat r)) then snd (fastTable U (nat r))
                                      else r)
                                else if unicode_IsPunct U r then 0x20
                                else unicode_ToLower U r)
                          (runes text)))"

section \<open>Stream processors over the word and line processors\<close>

text \<open>
  \<^verbatim>\<open>DefaultProcessor.ProcessStream\<close> in mode \<^verbatim>\<open>WordByWord\<close>, with the word processor that
  \<^verbatim>\<open>NewDefaultProcessor\<close> builds (\<^verbatim>\<open>UseParallel: false\<close>) and a reader that is not nil.
\<close>

definition ProcessStream_WordByWord :: "unicode_tables \<Rightarrow> StreamProcessor" where
  "ProcessStream_WordByWord U ctx rd mode =
     (case processWordsOptimized U ctx rd of ((count, bytesProcessed, err), rd') \<Rightarrow>
        if err \<noteq> None \<and> err \<noteq> Some EOF then ((count, err), rd')
        else if bytesProcessed = 0 \<and> err = Some EOF then ((0, None), rd')
        else ((count, None), rd'))"

text \<open>
  \<^verbatim>\<open>StreamProcessorWithLineProcessor.ProcessStream\<close> over a line processor with
  \<^verbatim>\<open>UseParallel: false\<close>.
\<close>

definition ProcessStream_LineProcessor :: "(byte list \<Rightarrow> byte list) \<Rightarrow> StreamProcessor" where
  "ProcessStream_LineProcessor N ctx rd mode =
     (case processLinesOptimized N ctx rd of ((count, bytesProcessed, err), rd') \<Rightarrow>
        ((count, err), rd'))"

text \<open>
  Tables that classify nothing beyond ASCII, for evaluating the program on ASCII inputs,
  where no entry beyond ASCII is looked up.
\<close>

definition ascii_only_tables :: unicode_tables where
  "ascii_only_tables =
     \<lparr>t_IsPunct = (\<lambda>r. False), t_IsSpace = (\<lambda>r. False), t_IsUpper = (\<lambda>r. False),
      t_IsLetter = (\<lambda>r. False), t_IsNumber = (\<lambda>r. False), t_ToLower = (\<lambda>r. r)\<rparr>"



definition example_augmented :: "byte list" where
  "example_augmented = bytes_of ''The quick brown fox jumps over the lazy canine.''"

definition example_config :: StreamingConfig where
  "example_config =
     \<lparr>sc_Threshold = 0.7, sc_MaxDiffRatio = 0.3, sc_ChunkSize = 8192, sc_Mode = WordByWord\<rparr>"

definition example_calculator :: Calculator where
  "example_calculator =
     \<lparr>calc_config = \<lparr>Threshold = 0.7, MaxDiffRatio = 0.3\<rparr>,
      calc_normalizer = DefaultNormalizer_Normalize ascii_only_tables\<rparr>"

section \<open>The normalization rule in words\<close>

text \<open>
  The rule as the specification words it, over the code points of the text: a punctuation
  or whitespace code point gives a single space unless the character emitted just before
  was already a space, every other code point gives its lowercase form. \<open>lastSpace\<close> says
  that the character emitted last was a space.
\<close>

fun spec_Normalize_runes :: "unicode_tables \<Rightarrow> rune list \<Rightarrow> bool \<Rightarrow> rune list" where
  "spec_Normalize_runes U [] lastSpace = []"
| "spec_Normalize_runes U (r # rs) lastSpace =
     (if unicode_IsPunct U r \<or> unicode_IsSpace U r then
        (if lastSpace then spec_Normalize_runes U rs True
         else 0x20 # spec_Normalize_runes U rs True)
      else unicode_ToLower U r # spec_Normalize_runes U rs (unicode_ToLower U r = 0x20))"

definition spec_Normalize :: "unicode_tables \<Rightarrow> byte list \<Rightarrow> byte list" where
  "spec_Normalize U text = encode_runes (spec_Normalize_runes U (runes text) False)"

text \<open>
  The rule restricted to punctuation: a punctuation code point gives a single space unless
  the character emitted just before was a space that replaced punctuation
  (\<open>lastReplaced\<close>); every other code point, whitespace included, gives its lowercase form.
\<close>

fun punct_rule :: "unicode_tables \<Rightarrow> rune list \<Rightarrow> bool \<Rightarrow> rune list" where
  "punct_rule U [] lastReplaced = []"
| "punct_rule U (r # rs) lastReplaced =
     (if unicode_IsPunct U r then
        (if lastReplaced then punct_rule U rs True else 0x20 # punct_rule U rs True)
      else unicode_ToLower U r # punct_rule U rs False)"

text \<open>
  The rule of \<^verbatim>\<open>DefaultNormalizer\<close> for one code point: no collapsing, and whitespace is a
  code point like any other.
\<close>

definition lower_or_space :: "unicode_tables \<Rightarrow> rune \<Rightarrow> rune" where
  "lower_or_space U r =
     (if unicode_IsPunct U (unicode_ToLower U r) then 0x20 else unicode_ToLower U r)"

text \<open>
  The rule of \<^verbatim>\<open>FastNormalizer\<close> for one code point: the punctuation test looks at the
  code point itself.
\<close>

definition space_or_lower :: "unicode_tables \<Rightarrow> rune \<Rightarrow> rune" where
  "space_or_lower U r = (if unicode_IsPunct U r then 0x20 else unicode_ToLower U r)"

text \<open>
  \<open>conts k bs\<close>: the text \<open>bs\<close> starts with \<open>k\<close> continuation bytes, the test
  \<^verbatim>\<open>b[i]&0xC0 == 0x80\<close> of \<^verbatim>\<open>decodeRune\<close>.
\<close>

fun conts :: "nat \<Rightarrow> byte list \<Rightarrow> bool" where
  "conts 0 bs = True"
| "conts (Suc k) [] = False"
| "conts (Suc k) (b # bs) = (b AND 0xC0 = 0x80 \<and> conts k bs)"

section \<open>Theorems\<close>

subsection \<open>Readers\<close>


lemma chunks_Nil: "chunks k [] = []"
  by (simp add: chunks.simps [of k "[]"])

lemma chunks_whole: "0 < k \<Longrightarrow> length xs \<le> k \<Longrightarrow> xs \<noteq> [] \<Longrightarrow> chunks k xs = [xs]"
  by (simp add: chunks.simps [of k xs] chunks_Nil)

lemma strings_Reader_whole:
  "0 < k \<Longrightarrow> length text \<le> k \<Longrightarrow> text \<noteq> [] \<Longrightarrow> strings_Reader k text = [(text, None)]"
  by (simp add: strings_Reader_def chunks_whole)

lemma strings_Reader_empty: "strings_Reader k [] = []"
  by (simp add: strings_Reader_def chunks_Nil)

section \<open>The similarity formula\<close>







subsection \<open>Two empty texts\<close>

lemma empty_reader_words:
  "ProcessStream_WordByWord U None [] mode = ((0, None), [])"
  by (simp add: ProcessStream_WordByWord_def processWordsOptimized_def
      ContextCheckFrequency_words_def)

lemma empty_text_fields:
  "strings_Fields U (DefaultNormalizer_Normalize U []) = []"
  by (simp add: strings_Fields_def DefaultNormalizer_Normalize_def strings_ToLower_def
      encode_runes_def)

text \<open>
  Claim C3, as stated, fails on the non-streaming word-count calculator: its \<^verbatim>\<open>Compute\<close> on
  two empty texts returns score 0 and \<open>passed = False\<close>.
\<close>

theorem empty_texts_counterexample:
  "r_Score (Compute ascii_only_tables example_calculator None [] []) = 0
   \<and> \<not> r_Passed (Compute ascii_only_tables example_calculator None [] [])
   \<and> \<not> (r_Score (Compute ascii_only_tables example_calculator None [] []) = 1
          \<and> r_Passed (Compute ascii_only_tables example_calculator None [] []))"
  by (simp add: Compute_def example_calculator_def empty_text_fields)

text \<open>
  Claim C3, amended. When the processor counts 0 in both streams (two empty texts) and
  reports no failure, the streaming calculator returns score 1 and \<open>passed = True\<close>. The
  non-streaming word-count calculator, for a context that is not cancelled, returns score 0
  and \<open>passed = False\<close> with the detail \<open>original text has zero words\<close> whenever the
  normalized original has no words, two empty texts included.
\<close>

theorem empty_texts:
  assumes "P ctx original (sc_Mode cfg) = ((0, e1), original')"
    and "e1 = None \<or> e1 = Some EOF"
    and "P ctx augmented (sc_Mode cfg) = ((0, e2), augmented')"
    and "e2 = None \<or> e2 = Some EOF"
    and "strings_Fields U (calc_normalizer c orig) = []"
  shows "sr_Score (fst (ComputeStreaming cfg P ctx original augmented)) = 1
       \<and> sr_Passed (fst (ComputeStreaming cfg P ctx original augmented))
       \<and> r_Score (Compute U c None orig aug) = 0
       \<and> \<not> r_Passed (Compute U c None orig aug)
       \<and> r_Details (Compute U c None orig aug) ''error''
           = Some (DString ''original text has zero words'')"
proof -
  have "sr_Score (fst (ComputeStreaming cfg P ctx original augmented)) = 1
      \<and> sr_Passed (fst (ComputeStreaming cfg P ctx original augmented))"
    using assms(1-4) unfolding ComputeStreaming_def by auto
  moreover have "r_Score (Compute U c None orig aug) = 0
      \<and> \<not> r_Passed (Compute U c None orig aug)
      \<and> r_Details (Compute U c None orig aug) ''error''
           = Some (DString ''original text has zero words'')"
    using assms(5) unfolding Compute_def by (simp add: Let_def)
  ultimately show ?thesis by simp
qed

theorem empty_texts_witness:
  "sr_Score (fst (ComputeStreaming example_config (ProcessStream_WordByWord ascii_only_tables)
                    None (strings_Reader 8192 []) (strings_Reader 8192 []))) = 1
   \<and> sr_Passed (fst (ComputeStreaming example_config (ProcessStream_WordByWord ascii_only_tables)
                    None (strings_Reader 8192 []) (strings_Reader 8192 [])))
   \<and> r_Score (Compute ascii_only_tables example_calculator None [] []) = 0
   \<and> \<not> r_Passed (Compute ascii_only_tables example_calculator None [] [])"
proof -
  have n: "calc_normalizer example_calculator = DefaultNormalizer_Normalize ascii_only_tables"
    by (simp add: example_calculator_def)
  note e = empty_texts [where P = "ProcessStream_WordByWord ascii_only_tables" and ctx = None
      and original = "[]" and augmented = "[]" and cfg = example_config
      and ?e1.0 = None and ?e2.0 = None and original' = "[]" and augmented' = "[]"
      and U = ascii_only_tables and c = example_calculator and orig = "[]" and aug = "[]"]
  show ?thesis
    using e n by (simp add: empty_reader_words empty_text_fields strings_Reader_empty)
qed

subsection \<open>Validation of the configuration\<close>

lemma NewCalculator_rejects_invalid:
  "Threshold config < 0 \<or> Threshold config > 1 \<or> MaxDiffRatio config \<le> 0
     \<Longrightarrow> \<exists>err. NewCalculator config normalizer = Inl err"
  by (auto simp: NewCalculator_def Validate_def)

lemma New_rejects_invalid:
  assumes "cfg = fold apply_Option opts
                  \<lparr>cfg_Threshold = DefaultThreshold, cfg_MaxDiffRatio = DefaultMaxDiffRatio,
                   cfg_Logger = False, cfg_Normalizer = None, cfg_Precision = 0\<rparr>"
    and "cfg_Threshold cfg < 0 \<or> cfg_Threshold cfg > 1 \<or> cfg_MaxDiffRatio cfg \<le> 0"
  shows "\<exists>err. New defaultLogger opts = Inl err"
  using assms by (auto simp: New_def Let_def)

text \<open>
  Claim C6 fails on the streaming constructor: \<^verbatim>\<open>NewStreamingCalculator\<close> returns a
  calculator and no error for a threshold of 2 and a maximal difference ratio of 0, which the
  non-streaming constructors reject (\<open>NewCalculator_rejects_invalid\<close>,
  \<open>New_rejects_invalid\<close>).
\<close>

theorem NewStreamingCalculator_accepts_invalid:
  "NewStreamingCalculator
     \<lparr>sc_Threshold = 2, sc_MaxDiffRatio = 0, sc_ChunkSize = 8192, sc_Mode = LineByLine\<rparr> N
   = Inr \<lparr>ssc_config =
            \<lparr>sc_Threshold = 2, sc_MaxDiffRatio = 0, sc_ChunkSize = 8192, sc_Mode = LineByLine\<rparr>,
          ssc_normalizer = N\<rparr>
   \<and> (\<exists>err. NewCalculator \<lparr>Threshold = 2, MaxDiffRatio = 0\<rparr> N = Inl err)
   \<and> (\<exists>err. New None [WithThreshold 2, WithMaxDiffRatio 0] = Inl err)"
  by (simp add: NewStreamingCalculator_def NewCalculator_def Validate_def New_def)

subsection \<open>A failure on the original stream\<close>

text \<open>
  Claim C9. If processing the original stream fails with an error other than end-of-stream
  (a cancellation or an I/O error), \<^verbatim>\<open>ComputeStreaming\<close> returns a result with score 0,
  \<open>passed = False\<close> and the reason under the key \<open>error\<close> of the detail map, and the
  augmented reader is left as it was: it is never read.
\<close>

theorem original_stream_failure:
  assumes "P ctx original (sc_Mode cfg) = ((n, Some e), original')"
    and "e \<noteq> EOF"
  shows "sr_Score (fst (ComputeStreaming cfg P ctx original augmented)) = 0
       \<and> \<not> sr_Passed (fst (ComputeStreaming cfg P ctx original augmented))
       \<and> sr_Details (fst (ComputeStreaming cfg P ctx original augmented)) ''error''
           = Some (DString (''error processing original stream: '' @ error_Error e))
       \<and> snd (snd (ComputeStreaming cfg P ctx original augmented)) = augmented"
  using assms unfolding ComputeStreaming_def by (simp add: error_result_def)

lemma read_error_words:
  "ProcessStream_WordByWord ascii_only_tables None
     [(bytes_of ''ab'', Some (ReadError ''connection reset''))] WordByWord
   = ((0, Some (ReadError ''connection reset'')), [])"
  by code_simp

theorem original_stream_failure_witness:
  "sr_Score (fst (ComputeStreaming example_config (ProcessStream_WordByWord ascii_only_tables)
       None [(bytes_of ''ab'', Some (ReadError ''connection reset''))]
       [(example_augmented, None)])) = 0
   \<and> \<not> sr_Passed (fst (ComputeStreaming example_config
       (ProcessStream_WordByWord ascii_only_tables)
       None [(bytes_of ''ab'', Some (ReadError ''connection reset''))]
       [(example_augmented, None)]))
   \<and> sr_Details (fst (ComputeStreaming example_config
       (ProcessStream_WordByWord ascii_only_tables)
       None [(bytes_of ''ab'', Some (ReadError ''connection reset''))]
       [(example_augmented, None)])) ''error''
       = Some (DString ''error processing original stream: connection reset'')
   \<and> snd (snd (ComputeStreaming example_config (ProcessStream_WordByWord ascii_only_tables)
       None [(bytes_of ''ab'', Some (ReadError ''connection reset''))]
       [(example_augmented, None)])) = [(example_augmented, None)]"
proof -
  have m: "sc_Mode example_config = WordByWord"
    by (simp add: example_config_def)
  have e: "ReadError ''connection reset'' \<noteq> EOF"
    by simp
  note f = original_stream_failure [where P = "ProcessStream_WordByWord ascii_only_tables"
      and ctx = None and cfg = example_config
      and original = "[(bytes_of ''ab'', Some (ReadError ''connection reset''))]"
      and n = 0 and e = "ReadError ''connection reset''" and original' = "[]"
      and augmented = "[(example_augmented, None)]"]
  show ?thesis
    using f [OF _ e] read_error_words m by simp
qed

subsection \<open>Chunk boundaries\<close>

lemma chunks_concat: "0 < k \<Longrightarrow> concat (chunks k xs) = xs"
proof (induction k xs rule: chunks.induct)
  case (1 k xs)
  then show ?case
    by (cases "xs = []") (simp_all add: chunks.simps [of k xs] chunks_Nil)
qed

lemma chunks_nonempty: "c \<in> set (chunks k xs) \<Longrightarrow> c \<noteq> []"
proof (induction k xs rule: chunks.induct)
  case (1 k xs)
  show ?case
  proof (cases "k = 0 \<or> xs = []")
    case True
    with "1.prems" show ?thesis by (simp add: chunks.simps [of k xs])
  next
    case False
    with "1.prems" have "c = take k xs \<or> c \<in> set (chunks k (drop k xs))"
      by (simp add: chunks.simps [of k xs])
    with False "1.IH" show ?thesis by auto
  qed
qed

lemma chunks_subset: "c \<in> set (chunks k xs) \<Longrightarrow> set c \<subseteq> set xs"
proof (induction k xs rule: chunks.induct)
  case (1 k xs)
  show ?case
  proof (cases "k = 0 \<or> xs = []")
    case True
    with "1.prems" show ?thesis by (simp add: chunks.simps [of k xs])
  next
    case False
    with "1.prems" have "c = take k xs \<or> c \<in> set (chunks k (drop k xs))"
      by (simp add: chunks.simps [of k xs])
    with False "1.IH" show ?thesis
      by (auto dest: in_set_takeD in_set_dropD)
  qed
qed

lemma scanWordsASCII_append:
  "scanWordsASCII (xs @ ys) st = scanWordsASCII ys (scanWordsASCII xs st)"
proof (induction xs arbitrary: st)
  case Nil
  show ?case by (cases st) simp
next
  case (Cons x xs)
  show ?case by (cases st) (simp add: Cons.IH)
qed

lemma scanWordsASCII_inWord:
  "xs \<noteq> [] \<Longrightarrow> snd (scanWordsASCII xs st) = IsASCIIWordChar (last xs)"
proof (induction xs arbitrary: st)
  case Nil
  then show ?case by simp
next
  case (Cons x xs)
  show ?case
  proof (cases "xs = []")
    case True
    then show ?thesis by (cases st) simp
  next
    case False
    with Cons.IH show ?thesis by (cases st) simp
  qed
qed

lemma wordChunk_ascii:
  assumes "IsASCIIOnly chunk" and "chunk \<noteq> []"
  shows "wordChunk U chunk (wc, iw, lwc) =
           (fst (scanWordsASCII chunk (wc, iw)), snd (scanWordsASCII chunk (wc, iw)),
            IsASCIIWordChar (last chunk))"
proof -
  obtain wc1 iw1 where s: "scanWordsASCII chunk (wc, iw) = (wc1, iw1)"
    by (cases "scanWordsASCII chunk (wc, iw)") auto
  with scanWordsASCII_inWord [OF assms(2), of "(wc, iw)"]
  have "iw1 = IsASCIIWordChar (last chunk)" by simp
  with s assms(1) show ?thesis
    by (simp add: wordChunk_def)
qed

lemma processWordsLoop_ascii:
  assumes "\<forall>c \<in> set cs. c \<noteq> [] \<and> IsASCIIOnly c"
  shows "processWordsLoop U None (map (\<lambda>c. (c, None)) cs) cnt (wc, iw, lwc) b =
           ((if snd (scanWordsASCII (concat cs) (wc, iw))
             then fst (scanWordsASCII (concat cs) (wc, iw)) + 1
             else fst (scanWordsASCII (concat cs) (wc, iw)),
             b + int (length (concat cs)), None), [])"
  using assms
proof (induction cs arbitrary: cnt wc iw lwc b)
  case Nil
  show ?case by simp
next
  case (Cons c cs)
  then have c: "c \<noteq> []" "IsASCIIOnly c" and cs: "\<forall>c \<in> set cs. c \<noteq> [] \<and> IsASCIIOnly c"
    by simp_all
  have w: "wordChunk U c (wc, iw, lwc) =
           (fst (scanWordsASCII c (wc, iw)), snd (scanWordsASCII c (wc, iw)),
            IsASCIIWordChar (last c))"
    by (rule wordChunk_ascii [OF c(2) c(1)])
  have "processWordsLoop U None (map (\<lambda>c. (c, None)) (c # cs)) cnt (wc, iw, lwc) b =
        processWordsLoop U None (map (\<lambda>c. (c, None)) cs)
          (if Suc cnt \<ge> ContextCheckFrequency_words then 0 else Suc cnt)
          (fst (scanWordsASCII c (wc, iw)), snd (scanWordsASCII c (wc, iw)),
            IsASCIIWordChar (last c)) (b + int (length c))"
    using c(1) by (simp add: w Let_def)
  also have "\<dots> = ((if snd (scanWordsASCII (concat (c # cs)) (wc, iw))
             then fst (scanWordsASCII (concat (c # cs)) (wc, iw)) + 1
             else fst (scanWordsASCII (concat (c # cs)) (wc, iw)),
             b + int (length (concat (c # cs))), None), [])"
    by (simp only: Cons.IH [OF cs] concat.simps scanWordsASCII_append prod.collapse
        length_append of_nat_add add.assoc)
  finally show ?case .
qed

text \<open>
  In word mode the count of an ASCII text does not depend on the chunk size: the part of
  claim C1 that the code keeps.
\<close>

lemma word_count_ascii_chunk_independent:
  assumes "0 < k" and "IsASCIIOnly text"
  shows "fst (fst (processWordsOptimized U None (strings_Reader k text)))
           = (if snd (scanWordsASCII text (0, False))
              then fst (scanWordsASCII text (0, False)) + 1
              else fst (scanWordsASCII text (0, False)))"
proof -
  have "\<forall>c \<in> set (chunks k text). c \<noteq> [] \<and> IsASCIIOnly c"
    using assms(2) chunks_nonempty [of _ k "text"] chunks_subset [of _ k "text"]
    by (auto simp: IsASCIIOnly_def list_all_iff)
  then show ?thesis
    using assms(1)
    by (simp add: processWordsOptimized_def strings_Reader_def processWordsLoop_ascii
        chunks_concat)
qed

text \<open>
  Claim C1 fails in line mode. Read in one buffer, the text \<open>a\r\n\<close> is the line \<open>a\r\<close>
  (the carriage return stays in the line) and counts 2; read in chunks of 2 bytes, the
  carriage return ends the first chunk, is taken for a line break at once, and the count
  is 1. Nor is a partial line joined to the rest of its line in the next chunk: with a
  normalizer that collapses runs, \<open>a.\n.b\<close> counts 4 in one buffer and 3 in chunks of 2.
\<close>

theorem line_count_depends_on_chunks:
  "fst (fst (processLinesOptimized (DefaultNormalizer_Normalize U) None
               (strings_Reader 3 [0x61, CR, LF]))) = 2
   \<and> fst (fst (processLinesOptimized (DefaultNormalizer_Normalize U) None
               (strings_Reader 2 [0x61, CR, LF]))) = 1
   \<and> fst (fst (processLinesOptimized (OptimizedNormalizer_Normalize U) None
               (strings_Reader 5 [0x61, 0x2E, LF, 0x2E, 0x62]))) = 4
   \<and> fst (fst (processLinesOptimized (OptimizedNormalizer_Normalize U) None
               (strings_Reader 2 [0x61, 0x2E, LF, 0x2E, 0x62]))) = 3"
  by code_simp

subsection \<open>Parallel and sequential\<close>

text \<open>
  Claim C2 fails. In word mode the parallel path never adds the word that only the end of
  the stream terminates: \<open>hello\<close> counts 0 in parallel and 1 sequentially. In line mode the
  parallel path splits at line feeds only: \<open>a\rb\<close> is one line of 3 runes in parallel and
  two lines of 1 rune each sequentially.
\<close>

theorem parallel_differs_from_sequential:
  "fst (fst (ProcessWords U True [(bytes_of ''hello'', None)])) = 0
   \<and> fst (fst (ProcessWords U False [(bytes_of ''hello'', None)])) = 1
   \<and> fst (fst (ProcessLines (DefaultNormalizer_Normalize U) True [([0x61, CR, 0x62], None)])) = 3
   \<and> fst (fst (ProcessLines (DefaultNormalizer_Normalize U) False [([0x61, CR, 0x62], None)])) = 2"
  by code_simp

subsection \<open>Empty lines\<close>

















subsection \<open>The two paths of the allocation-efficient normalizer\<close>

lemma normalize_loops_agree:
  "list_all (\<lambda>b. b < 0x80) src \<Longrightarrow>
   normalizeASCII_loop U src lastWasSpace = normalizeUnicode_loop U src lastWasSpace"
  by (induction src arbitrary: lastWasSpace) simp_all

text \<open>
  Claim C7. On an input that consists of ASCII bytes only (every byte below 0x80), the ASCII
  fast path \<^verbatim>\<open>normalizeASCII\<close> and the fallback \<^verbatim>\<open>normalizeUnicode\<close> return the same
  bytes.
\<close>

theorem ascii_paths_agree:
  assumes "list_all (\<lambda>b. b < 0x80) src"
  shows "normalizeASCII U src = normalizeUnicode U src"
  using assms by (simp add: normalizeASCII_def normalizeUnicode_def normalize_loops_agree)

theorem ascii_paths_agree_witness:
  "list_all (\<lambda>b. b < 0x80) (bytes_of ''Hello, World!'')
   \<and> normalizeASCII ascii_only_tables (bytes_of ''Hello, World!'') = bytes_of ''hello  world ''
   \<and> normalizeUnicode ascii_only_tables (bytes_of ''Hello, World!'') = bytes_of ''hello  world ''"
proof -
  have a: "list_all (\<lambda>b. b < 0x80) (bytes_of ''Hello, World!'')"
    by code_simp
  have b: "normalizeASCII ascii_only_tables (bytes_of ''Hello, World!'')
             = bytes_of ''hello  world ''"
    by code_simp
  from ascii_paths_agree [OF a, of ascii_only_tables] a b show ?thesis
    by simp
qed

subsection \<open>Encoding and decoding UTF-8\<close>

text \<open>
  The bit operations of the decoder and of the encoder, read as arithmetic on the integers
  the bytes stand for.
\<close>

lemma int_and_mask: "(x::int) AND 0x3F = x mod 64" "(x::int) AND 0x1F = x mod 32"
  "(x::int) AND 0x0F = x mod 16" "(x::int) AND 0x07 = x mod 8"
proof -
  have "x AND mask 6 = x mod 2 ^ 6" "x AND mask 5 = x mod 2 ^ 5"
       "x AND mask 4 = x mod 2 ^ 4" "x AND mask 3 = x mod 2 ^ 3"
    by (simp_all only: take_bit_eq_mask [symmetric] take_bit_eq_mod)
  then show "(x::int) AND 0x3F = x mod 64" "(x::int) AND 0x1F = x mod 32"
  "(x::int) AND 0x0F = x mod 16" "(x::int) AND 0x07 = x mod 8"
    by (simp_all add: mask_eq_exp_minus_1)
qed

lemma int_or_add:
  fixes a y :: int
  assumes "0 \<le> y" and "y < 2 ^ n"
  shows "push_bit n a OR y = push_bit n a + y"
proof -
  have y: "y = take_bit n y"
    using assms by (simp add: take_bit_int_eq_self)
  have "push_bit n a + take_bit n y = push_bit n a OR take_bit n y"
    by (rule disjunctive_add) (auto simp: bit_simps)
  with y show ?thesis by simp
qed

text \<open>The rune that two, three or four bytes assemble to.\<close>

lemma uint_byte_bounds: "0 \<le> uint (x::byte)" "uint (x::byte) < 256"
  using uint_bounded [of x] by simp_all

lemma assemble2:
  fixes x y :: byte
  assumes "uint y < 64"
  shows "uint (push_bit 6 (ucast x :: 32 word) OR ucast y) = uint x * 64 + uint y"
proof -
  have "uint (push_bit 6 (ucast x :: 32 word) OR ucast y)
          = take_bit 32 (push_bit 6 (uint x)) OR uint y"
    by (simp add: unsigned_or_eq unsigned_push_bit_eq uint_up_ucast is_up)
  also have "take_bit 32 (push_bit 6 (uint x)) = push_bit 6 (uint x)"
    using uint_byte_bounds [of x] by (simp add: take_bit_int_eq_self push_bit_eq_mult)
  also have "push_bit 6 (uint x) OR uint y = push_bit 6 (uint x) + uint y"
    using assms by (intro int_or_add) simp_all
  finally show ?thesis by (simp add: push_bit_eq_mult)
qed

lemma uint_and_mask_byte:
  fixes x :: byte
  shows "uint (x AND 0x3F) = uint x mod 64" "uint (x AND 0x1F) = uint x mod 32"
    "uint (x AND 0x0F) = uint x mod 16" "uint (x AND 0x07) = uint x mod 8"
  by (simp_all add: unsigned_and_eq int_and_mask)

lemma assemble3:
  fixes x y z :: byte
  assumes "uint y < 64" "uint z < 64"
  shows "uint (push_bit 12 (ucast x :: 32 word) OR push_bit 6 (ucast y) OR ucast z)
           = uint x * 4096 + uint y * 64 + uint z"
proof -
  have "uint (push_bit 12 (ucast x :: 32 word) OR push_bit 6 (ucast y) OR ucast z)
          = take_bit 32 (push_bit 12 (uint x)) OR take_bit 32 (push_bit 6 (uint y)) OR uint z"
    by (simp add: unsigned_or_eq unsigned_push_bit_eq uint_up_ucast is_up)
  also have "take_bit 32 (push_bit 12 (uint x)) = push_bit 12 (uint x)"
    using uint_byte_bounds [of x] by (simp add: take_bit_int_eq_self push_bit_eq_mult)
  also have "take_bit 32 (push_bit 6 (uint y)) = push_bit 6 (uint y)"
    using uint_byte_bounds [of y] by (simp add: take_bit_int_eq_self push_bit_eq_mult)
  also have "push_bit 6 (uint y) OR uint z = push_bit 6 (uint y) + uint z"
    using assms by (intro int_or_add) simp_all
  also have "push_bit 12 (uint x) OR (push_bit 6 (uint y) + uint z)
               = push_bit 12 (uint x) + (push_bit 6 (uint y) + uint z)"
    using assms uint_byte_bounds [of y] uint_byte_bounds [of z]
    by (intro int_or_add) (simp_all add: push_bit_eq_mult)
  finally show ?thesis by (simp add: push_bit_eq_mult)
qed

lemma assemble4:
  fixes x y z w :: byte
  assumes "uint y < 64" "uint z < 64" "uint w < 64"
  shows "uint (push_bit 18 (ucast x :: 32 word) OR push_bit 12 (ucast y)
               OR push_bit 6 (ucast z) OR ucast w)
           = uint x * 262144 + uint y * 4096 + uint z * 64 + uint w"
proof -
  have "uint (push_bit 18 (ucast x :: 32 word) OR push_bit 12 (ucast y)
               OR push_bit 6 (ucast z) OR ucast w)
          = take_bit 32 (push_bit 18 (uint x)) OR take_bit 32 (push_bit 12 (uint y))
            OR take_bit 32 (push_bit 6 (uint z)) OR uint w"
    by (simp add: unsigned_or_eq unsigned_push_bit_eq uint_up_ucast is_up)
  also have "take_bit 32 (push_bit 18 (uint x)) = push_bit 18 (uint x)"
    using uint_byte_bounds [of x] by (simp add: take_bit_int_eq_self push_bit_eq_mult)
  also have "take_bit 32 (push_bit 12 (uint y)) = push_bit 12 (uint y)"
    using uint_byte_bounds [of y] by (simp add: take_bit_int_eq_self push_bit_eq_mult)
  also have "take_bit 32 (push_bit 6 (uint z)) = push_bit 6 (uint z)"
    using uint_byte_bounds [of z] by (simp add: take_bit_int_eq_self push_bit_eq_mult)
  also have "push_bit 6 (uint z) OR uint w = push_bit 6 (uint z) + uint w"
    using assms by (intro int_or_add) simp_all
  also have "push_bit 12 (uint y) OR (push_bit 6 (uint z) + uint w)
               = push_bit 12 (uint y) + (push_bit 6 (uint z) + uint w)"
    using assms uint_byte_bounds [of z] uint_byte_bounds [of w]
    by (intro int_or_add) (simp_all add: push_bit_eq_mult)
  also have "push_bit 18 (uint x) OR (push_bit 12 (uint y) + (push_bit 6 (uint z) + uint w))
               = push_bit 18 (uint x) + (push_bit 12 (uint y) + (push_bit 6 (uint z) + uint w))"
    using assms uint_byte_bounds [of y] uint_byte_bounds [of z] uint_byte_bounds [of w]
    by (intro int_or_add) (simp_all add: push_bit_eq_mult)
  finally show ?thesis by (simp add: push_bit_eq_mult)
qed

lemma mod_aux: "0 \<le> q \<Longrightarrow> q < k \<Longrightarrow> (a * k + q) mod k = (q::int)"
  by simp

lemma mods:
  fixes q :: int
  shows "0 \<le> q \<Longrightarrow> q < 64 \<Longrightarrow> (128 + q) mod 64 = q"
    and "0 \<le> q \<Longrightarrow> q < 32 \<Longrightarrow> (192 + q) mod 32 = q"
    and "0 \<le> q \<Longrightarrow> q < 16 \<Longrightarrow> (224 + q) mod 16 = q"
    and "0 \<le> q \<Longrightarrow> q < 8 \<Longrightarrow> (240 + q) mod 8 = q"
  using mod_aux [of q 64 2] mod_aux [of q 32 6] mod_aux [of q 16 14] mod_aux [of q 8 30]
  by simp_all

lemma dec2:
  fixes p0 p1 :: byte
  assumes "uint p0 = 192 + q" "2 \<le> q" "q < 32" "uint p1 = 128 + m" "0 \<le> m" "m < 64"
  shows "utf8_DecodeRune (p0 # p1 # rest) = (q * 64 + m, 2)"
proof -
  have c: "\<not> p0 < 0x80" "\<not> (p0 < 0xC2 \<or> 0xF4 < p0)" "p0 < 0xE0" "p0 \<noteq> 0xE0" "p0 \<noteq> 0xF0"
    "p0 \<noteq> 0xED" "p0 \<noteq> 0xF4" "\<not> (p1 < 0x80 \<or> 0xBF < p1)"
    using assms by (simp_all add: word_less_alt word_uint_eq_iff)
  have a: "uint (p0 AND 0x1F) = q" "uint (p1 AND 0x3F) = m"
    using assms by (simp_all add: uint_and_mask_byte mods)
  have "uint (push_bit 6 (ucast (p0 AND 0x1F) :: 32 word) OR ucast (p1 AND 0x3F)) = q * 64 + m"
    using assemble2 [of "p1 AND 0x3F" "p0 AND 0x1F"] a assms by simp
  with c show ?thesis by (simp add: utf8_DecodeRune.simps)
qed


lemma dec3:
  fixes p0 p1 p2 :: byte
  assumes "uint p0 = 224 + q" "0 \<le> q" "q < 16" "uint p1 = 128 + m" "0 \<le> m" "m < 64"
    "uint p2 = 128 + n" "0 \<le> n" "n < 64"
    "q = 0 \<longrightarrow> 32 \<le> m" "q = 13 \<longrightarrow> m < 32"
  shows "utf8_DecodeRune (p0 # p1 # p2 # rest) = (q * 4096 + m * 64 + n, 3)"
proof -
  have c: "\<not> p0 < 0x80" "\<not> (p0 < 0xC2 \<or> 0xF4 < p0)" "\<not> p0 < 0xE0" "p0 < 0xF0" "p0 \<noteq> 0xF0"
    "p0 \<noteq> 0xF4" "\<not> (p2 < 0x80 \<or> 0xBF < p2)"
    using assms(1-9) by (simp_all add: word_less_alt word_uint_eq_iff)
  have e: "(p0 = 0xE0) = (q = 0)" "(p0 = 0xED) = (q = 13)"
    using assms(1) by (simp_all add: word_uint_eq_iff)
  have lo: "\<not> p1 < (if q = 0 then 0xA0 else 0x80)"
    using assms(4-6,10) by (auto simp: word_less_alt)
  have hi: "\<not> (if q = 13 then 0x9F else 0xBF) < p1"
    using assms(4-6,11) by (auto simp: word_less_alt)
  have a: "uint (p0 AND 0x0F) = q" "uint (p1 AND 0x3F) = m" "uint (p2 AND 0x3F) = n"
    using assms(1-9) by (simp_all add: uint_and_mask_byte mods)
  have r: "uint (push_bit 12 (ucast (p0 AND 0x0F) :: 32 word) OR push_bit 6 (ucast (p1 AND 0x3F))
              OR ucast (p2 AND 0x3F)) = q * 4096 + m * 64 + n"
    using assemble3 [of "p1 AND 0x3F" "p2 AND 0x3F" "p0 AND 0x0F"] a assms(6,9) by simp
  show ?thesis
    using c lo hi by (auto simp: utf8_DecodeRune.simps Let_def e r split: if_splits)
qed

lemma dec4:
  fixes p0 p1 p2 p3 :: byte
  assumes "uint p0 = 240 + q" "0 \<le> q" "q \<le> 4" "uint p1 = 128 + m" "0 \<le> m" "m < 64"
    "uint p2 = 128 + n" "0 \<le> n" "n < 64" "uint p3 = 128 + k" "0 \<le> k" "k < 64"
    "q = 0 \<longrightarrow> 16 \<le> m" "q = 4 \<longrightarrow> m < 16"
  shows "utf8_DecodeRune (p0 # p1 # p2 # p3 # rest) = (q * 262144 + m * 4096 + n * 64 + k, 4)"
proof -
  have c: "\<not> p0 < 0x80" "\<not> (p0 < 0xC2 \<or> 0xF4 < p0)" "\<not> p0 < 0xE0" "\<not> p0 < 0xF0" "p0 \<noteq> 0xE0"
    "p0 \<noteq> 0xED" "\<not> (p2 < 0x80 \<or> 0xBF < p2)" "\<not> (p3 < 0x80 \<or> 0xBF < p3)"
    using assms(1-12) by (simp_all add: word_less_alt word_uint_eq_iff)
  have e: "(p0 = 0xF0) = (q = 0)" "(p0 = 0xF4) = (q = 4)"
    using assms(1) by (simp_all add: word_uint_eq_iff)
  have lo: "\<not> p1 < (if q = 0 then 0x90 else 0x80)"
    using assms(4-6,13) by (auto simp: word_less_alt)
  have hi: "\<not> (if q = 4 then 0x8F else 0xBF) < p1"
    using assms(4-6,14) by (auto simp: word_less_alt)
  have a: "uint (p0 AND 0x07) = q" "uint (p1 AND 0x3F) = m" "uint (p2 AND 0x3F) = n"
    "uint (p3 AND 0x3F) = k"
    using assms(1-12) by (simp_all add: uint_and_mask_byte mods)
  have r: "uint (push_bit 18 (ucast (p0 AND 0x07) :: 32 word) OR push_bit 12 (ucast (p1 AND 0x3F))
              OR push_bit 6 (ucast (p2 AND 0x3F)) OR ucast (p3 AND 0x3F))
          = q * 262144 + m * 4096 + n * 64 + k"
    using assemble4 [of "p1 AND 0x3F" "p2 AND 0x3F" "p3 AND 0x3F" "p0 AND 0x07"] a assms(6,9,12)
    by simp
  show ?thesis
    using c lo hi by (auto simp: utf8_DecodeRune.simps Let_def e r split: if_splits)
qed


lemma uint_byte_or:
  fixes a y :: int
  assumes "0 \<le> y" "y < 2 ^ n" "0 \<le> a" "push_bit n a + y < 256"
  shows "uint ((word_of_int (push_bit n a) :: byte) OR word_of_int y) = push_bit n a + y"
proof -
  have "0 \<le> push_bit n a"
    using assms(3) by (simp add: push_bit_eq_mult)
  with assms have b: "push_bit n a < 256" "y < 256"
    by linarith+
  have "uint ((word_of_int (push_bit n a) :: byte) OR word_of_int y)
          = take_bit 8 (push_bit n a) OR take_bit 8 y"
    by (simp add: unsigned_or_eq uint_word_of_int_eq)
  also have "take_bit 8 (push_bit n a) = push_bit n a"
    using b \<open>0 \<le> push_bit n a\<close> by (simp add: take_bit_int_eq_self)
  also have "take_bit 8 y = y"
    using b assms(1) by (simp add: take_bit_int_eq_self)
  also have "push_bit n a OR y = push_bit n a + y"
    using assms(1,2) by (rule int_or_add)
  finally show ?thesis .
qed

lemma lead_bytes:
  fixes y :: int
  shows "0 \<le> y \<Longrightarrow> y < 32 \<Longrightarrow> uint ((0xC0 :: byte) OR word_of_int y) = 192 + y"
    and "0 \<le> y \<Longrightarrow> y < 16 \<Longrightarrow> uint ((0xE0 :: byte) OR word_of_int y) = 224 + y"
    and "0 \<le> y \<Longrightarrow> y < 8 \<Longrightarrow> uint ((0xF0 :: byte) OR word_of_int y) = 240 + y"
  using uint_byte_or [of y 5 6] uint_byte_or [of y 4 14] uint_byte_or [of y 3 30]
  by (simp_all add: push_bit_eq_mult)

lemma cont_byte:
  fixes x :: int
  shows "uint ((0x80 :: byte) OR (word_of_int x AND 0x3F)) = 128 + x mod 64"
proof -
  have "(word_of_int x AND 0x3F :: byte) = word_of_int (x mod 64)"
    by (simp add: word_uint_eq_iff unsigned_and_eq uint_word_of_int_eq int_and_mask
        take_bit_eq_mod mod_mod_cancel)
  then show ?thesis
    using uint_byte_or [of "x mod 64" 6 2] by (simp add: push_bit_eq_mult)
qed

lemma dm64: "(a::int) = a div 64 * 64 + a mod 64" "0 \<le> (a::int) mod 64" "(a::int) mod 64 < 64"
  by simp_all

lemma div_4096: "(r::int) div 4096 = r div 64 div 64"
  by (simp add: div_mult2_eq [symmetric])

lemma div_262144: "(r::int) div 262144 = r div 64 div 64 div 64"
  by (simp add: div_mult2_eq [symmetric])

lemma surrogate_gap:
  assumes "\<not> (55296 \<le> (r::int) \<and> r \<le> 57343)" "r div 64 div 64 = 13"
  shows "r div 64 mod 64 < 32"
proof (rule ccontr)
  assume "\<not> r div 64 mod 64 < 32"
  with assms(2) dm64 [of r] dm64 [of "r div 64"] have "55296 \<le> r \<and> r \<le> 57343"
    by linarith
  with assms(1) show False by simp
qed

lemma digits3: "(r::int) div 64 div 64 * 4096 + r div 64 mod 64 * 64 + r mod 64 = r"
  using dm64 [of r] dm64 [of "r div 64"] by linarith

lemma digits4:
  "(r::int) div 64 div 64 div 64 * 262144 + r div 64 div 64 mod 64 * 4096
     + r div 64 mod 64 * 64 + r mod 64 = r"
  using dm64 [of r] dm64 [of "r div 64"] dm64 [of "r div 64 div 64"] by linarith

lemma enc_dec_1:
  assumes "0 \<le> r" "r \<le> 0x7F"
  shows "utf8_DecodeRune (utf8_EncodeRune r @ rest) = (r, 1)"
proof -
  have u: "uint (word_of_int r :: byte) = r"
    using assms by (simp add: uint_word_of_int_eq take_bit_int_eq_self)
  then have "(word_of_int r :: byte) < 0x80"
    using assms by (simp add: word_less_alt)
  with u assms show ?thesis
    by (simp add: utf8_EncodeRune_def utf8_DecodeRune.simps)
qed

lemma enc_dec_2:
  assumes "0x80 \<le> r" "r \<le> 0x7FF"
  shows "utf8_DecodeRune (utf8_EncodeRune r @ rest) = (r, 2)"
proof -
  have q: "2 \<le> r div 64" "r div 64 < 32"
    using assms by simp_all
  have e: "utf8_EncodeRune r = [0xC0 OR word_of_int (r div 64), 0x80 OR (word_of_int r AND 0x3F)]"
    using assms by (simp add: utf8_EncodeRune_def drop_bit_eq_div)
  have "utf8_DecodeRune ((0xC0 OR word_of_int (r div 64)) # (0x80 OR (word_of_int r AND 0x3F)) # rest)
          = (r div 64 * 64 + r mod 64, 2)"
    using q
    by (intro dec2 [where q = "r div 64" and m = "r mod 64"])
      (simp_all add: lead_bytes cont_byte)
  then show ?thesis
    by (simp add: e)
qed

lemma enc_dec_3:
  assumes "0x800 \<le> r" "r \<le> 0xFFFF" "\<not> (0xD800 \<le> r \<and> r \<le> 0xDFFF)"
  shows "utf8_DecodeRune (utf8_EncodeRune r @ rest) = (r, 3)"
proof -
  have "0 \<le> r div 4096" "r div 4096 < 16"
    using assms by simp_all
  then have q: "0 \<le> r div 64 div 64" "r div 64 div 64 < 16"
    by (simp_all add: div_4096)
  have e: "utf8_EncodeRune r =
             [0xE0 OR word_of_int (r div 64 div 64), 0x80 OR (word_of_int (r div 64) AND 0x3F),
              0x80 OR (word_of_int r AND 0x3F)]"
  proof -
    have "\<not> r \<le> 0x7F" "\<not> r \<le> 0x7FF" "r \<le> 0xFFFF" "\<not> r < 0" "\<not> 0x10FFFF < r"
      using assms by simp_all
    with assms(3) show ?thesis
      by (auto simp: utf8_EncodeRune_def drop_bit_eq_div div_4096)
  qed
  have lo: "r div 64 div 64 = 0 \<longrightarrow> 32 \<le> r div 64 mod 64"
    using assms(1) dm64 [of r] dm64 [of "r div 64"] by linarith
  have hi: "r div 64 div 64 = 13 \<longrightarrow> r div 64 mod 64 < 32"
    using assms(3) surrogate_gap [of r] by simp
  have "utf8_DecodeRune ((0xE0 OR word_of_int (r div 64 div 64))
                         # (0x80 OR (word_of_int (r div 64) AND 0x3F))
                         # (0x80 OR (word_of_int r AND 0x3F)) # rest)
          = (r div 64 div 64 * 4096 + r div 64 mod 64 * 64 + r mod 64, 3)"
    using q lo hi
    by (intro dec3 [where q = "r div 64 div 64" and m = "r div 64 mod 64" and n = "r mod 64"])
      (simp_all add: lead_bytes cont_byte)
  then show ?thesis
    by (simp add: e digits3)
qed

lemma enc_dec_4:
  assumes "0x10000 \<le> r" "r \<le> 0x10FFFF"
  shows "utf8_DecodeRune (utf8_EncodeRune r @ rest) = (r, 4)"
proof -
  have "0 \<le> r div 262144" "r div 262144 \<le> 4"
    using assms by simp_all
  then have q: "0 \<le> r div 64 div 64 div 64" "r div 64 div 64 div 64 \<le> 4"
    "r div 64 div 64 div 64 < 8"
    by (simp_all add: div_262144)
  have e: "utf8_EncodeRune r =
             [0xF0 OR word_of_int (r div 64 div 64 div 64),
              0x80 OR (word_of_int (r div 64 div 64) AND 0x3F),
              0x80 OR (word_of_int (r div 64) AND 0x3F), 0x80 OR (word_of_int r AND 0x3F)]"
  proof -
    have "\<not> r \<le> 0x7F" "\<not> r \<le> 0x7FF" "\<not> r \<le> 0xFFFF" "\<not> r < 0" "\<not> 0x10FFFF < r"
      "\<not> (0xD800 \<le> r \<and> r \<le> 0xDFFF)"
      using assms by simp_all
    then show ?thesis
      by (simp add: utf8_EncodeRune_def drop_bit_eq_div div_4096 div_262144)
  qed
  have "16 \<le> r div 4096" "r div 4096 \<le> 271"
    using assms by simp_all
  then have x: "16 \<le> r div 64 div 64" "r div 64 div 64 \<le> 271"
    by (simp_all add: div_4096)
  have lo: "r div 64 div 64 div 64 = 0 \<longrightarrow> 16 \<le> r div 64 div 64 mod 64"
    using x dm64 [of "r div 64 div 64"] by linarith
  have hi: "r div 64 div 64 div 64 = 4 \<longrightarrow> r div 64 div 64 mod 64 < 16"
    using x dm64 [of "r div 64 div 64"] by linarith
  have "utf8_DecodeRune ((0xF0 OR word_of_int (r div 64 div 64 div 64))
                         # (0x80 OR (word_of_int (r div 64 div 64) AND 0x3F))
                         # (0x80 OR (word_of_int (r div 64) AND 0x3F))
                         # (0x80 OR (word_of_int r AND 0x3F)) # rest)
          = (r div 64 div 64 div 64 * 262144 + r div 64 div 64 mod 64 * 4096
             + r div 64 mod 64 * 64 + r mod 64, 4)"
    using q lo hi
    by (intro dec4 [where q = "r div 64 div 64 div 64" and m = "r div 64 div 64 mod 64"
          and n = "r div 64 mod 64" and k = "r mod 64"])
      (simp_all add: lead_bytes cont_byte)
  then show ?thesis
    by (simp add: e digits4)
qed

lemma length_utf8_EncodeRune: "1 \<le> length (utf8_EncodeRune r)"
  by (simp add: utf8_EncodeRune_def)

lemma enc_dec:
  assumes "valid_rune r"
  shows "utf8_DecodeRune (utf8_EncodeRune r @ rest) = (r, length (utf8_EncodeRune r))"
proof -
  have v: "0 \<le> r" "r \<le> 0x10FFFF" "\<not> (0xD800 \<le> r \<and> r \<le> 0xDFFF)"
    using assms by (simp_all add: valid_rune_def)
  consider "r \<le> 0x7F" | "0x80 \<le> r" "r \<le> 0x7FF" | "0x800 \<le> r" "r \<le> 0xFFFF"
    | "0x10000 \<le> r"
    by linarith
  then show ?thesis
  proof cases
    case 1
    then have "length (utf8_EncodeRune r) = 1"
      using v(1) by (simp add: utf8_EncodeRune_def)
    with 1 v(1) enc_dec_1 [of r rest] show ?thesis by simp
  next
    case 2
    then have "length (utf8_EncodeRune r) = 2"
      by (simp add: utf8_EncodeRune_def)
    with 2 enc_dec_2 [of r rest] show ?thesis by simp
  next
    case 3
    then have "\<not> r \<le> 0x7F" "\<not> r \<le> 0x7FF" "\<not> r < 0" "\<not> 0x10FFFF < r"
      by simp_all
    with 3 v(3) have "length (utf8_EncodeRune r) = 3"
      by (simp add: utf8_EncodeRune_def)
    with 3 v(3) enc_dec_3 [of r rest] show ?thesis by simp
  next
    case 4
    then have "\<not> r \<le> 0x7F" "\<not> r \<le> 0x7FF" "\<not> r \<le> 0xFFFF" "\<not> r < 0"
      "\<not> (0xD800 \<le> r \<and> r \<le> 0xDFFF)"
      by simp_all
    with v(2) have "length (utf8_EncodeRune r) = 4"
      by (simp add: utf8_EncodeRune_def)
    with 4 v(2) enc_dec_4 [of r rest] show ?thesis by simp
  qed
qed

lemma runes_enc:
  assumes "valid_rune r"
  shows "runes (utf8_EncodeRune r @ rest) = r # runes rest"
proof -
  obtain b bs where e: "utf8_EncodeRune r = b # bs"
    using length_utf8_EncodeRune [of r] by (cases "utf8_EncodeRune r") auto
  have "utf8_DecodeRune (b # bs @ rest) = (r, Suc (length bs))"
    using enc_dec [OF assms, of rest] e by simp
  then show ?thesis
    by (simp add: e)
qed

lemma runes_encode_runes:
  "list_all valid_rune rs \<Longrightarrow> runes (encode_runes rs) = rs"
  by (induction rs) (simp_all add: encode_runes_def runes_enc)

lemma mod_window:
  fixes x :: int
  shows "128 \<le> x \<Longrightarrow> x < 192 \<Longrightarrow> x mod 64 = x - 128"
    and "192 \<le> x \<Longrightarrow> x < 224 \<Longrightarrow> x mod 32 = x - 192"
    and "224 \<le> x \<Longrightarrow> x < 240 \<Longrightarrow> x mod 16 = x - 224"
    and "240 \<le> x \<Longrightarrow> x < 248 \<Longrightarrow> x mod 8 = x - 240"
  using mods(1) [of "x - 128"] mods(2) [of "x - 192"] mods(3) [of "x - 224"] mods(4) [of "x - 240"]
  by simp_all

lemma valid_ReplacementChar: "valid_rune ReplacementChar"
  by (simp add: valid_rune_def ReplacementChar_def)

lemma uint_lt_iff:
  fixes p :: byte
  shows "(p < numeral k) = (uint p < uint (numeral k :: byte))"
    and "(numeral k < p) = (uint (numeral k :: byte) < uint p)"
    and "(p = numeral k) = (uint p = uint (numeral k :: byte))"
  by (simp_all only: word_less_alt word_uint_eq_iff)

lemma utf8_DecodeRune_valid: "valid_rune (fst (utf8_DecodeRune bs))"
proof (cases bs)
  case Nil
  then show ?thesis by (simp add: valid_ReplacementChar)
next
  case (Cons p0 ps)
  note u = uint_byte_bounds [of p0]
  show ?thesis
  proof (cases "p0 < 0x80")
    case True
    with Cons u show ?thesis
      by (simp add: valid_rune_def word_less_alt utf8_DecodeRune.simps)
  next
    case a: False
    show ?thesis
    proof (cases "p0 < 0xC2 \<or> 0xF4 < p0")
      case True
      with Cons a show ?thesis by (simp add: valid_ReplacementChar utf8_DecodeRune.simps)
    next
      case b: False
      define sz :: nat where "sz = (if p0 < 0xE0 then 2 else if p0 < 0xF0 then 3 else 4)"
      define lo :: byte where "lo = (if p0 = 0xE0 then 0xA0 else if p0 = 0xF0 then 0x90 else 0x80)"
      define hi :: byte where "hi = (if p0 = 0xED then 0x9F else if p0 = 0xF4 then 0x8F else 0xBF)"
      have d: "utf8_DecodeRune (p0 # ps) =
          (if length (p0 # ps) < sz then (ReplacementChar, 1)
           else
             let b1 = ps ! 0 in
             if b1 < lo \<or> hi < b1 then (ReplacementChar, 1)
             else if sz \<le> 2 then
               (uint (push_bit 6 (ucast (p0 AND 0x1F) :: 32 word) OR ucast (b1 AND 0x3F)), 2)
             else
               let b2 = ps ! 1 in
               if b2 < 0x80 \<or> 0xBF < b2 then (ReplacementChar, 1)
               else if sz \<le> 3 then
                 (uint (push_bit 12 (ucast (p0 AND 0x0F) :: 32 word)
                        OR push_bit 6 (ucast (b1 AND 0x3F)) OR ucast (b2 AND 0x3F)), 3)
               else
                 let b3 = ps ! 2 in
                 if b3 < 0x80 \<or> 0xBF < b3 then (ReplacementChar, 1)
                 else
                   (uint (push_bit 18 (ucast (p0 AND 0x07) :: 32 word)
                          OR push_bit 12 (ucast (b1 AND 0x3F))
                          OR push_bit 6 (ucast (b2 AND 0x3F)) OR ucast (b3 AND 0x3F)), 4))"
        using a b unfolding sz_def lo_def hi_def by (simp add: Let_def utf8_DecodeRune.simps)
      have m: "\<And>x::byte. uint (x AND 0x3F) < 64" "\<And>x::byte. 0 \<le> uint (x AND 0x3F)"
        by (simp_all add: uint_and_mask_byte)
      show ?thesis
      proof (cases "length (p0 # ps) < sz \<or> ps ! 0 < lo \<or> hi < ps ! 0")
        case True
        with Cons d show ?thesis by (auto simp: valid_ReplacementChar Let_def)
      next
        case c: False
        define b1 where "b1 = ps ! 0"
        have b1: "\<not> b1 < lo" "\<not> hi < b1"
          using c by (simp_all add: b1_def)
        have ub1: "128 \<le> uint b1" "uint b1 < 192"
          using b1 unfolding lo_def hi_def
          by (auto simp: word_less_alt split: if_splits)
        have m1: "uint (b1 AND 0x3F) = uint b1 - 128"
          using ub1 by (simp add: uint_and_mask_byte mod_window)
        show ?thesis
        proof (cases "sz \<le> 2")
          case True
          then have p: "194 \<le> uint p0" "uint p0 < 224"
            using a b unfolding sz_def by (auto simp: word_less_alt split: if_splits)
          have q: "uint (p0 AND 0x1F) = uint p0 - 192"
            using p by (simp add: uint_and_mask_byte mod_window)
          have "fst (utf8_DecodeRune (p0 # ps))
                  = uint (p0 AND 0x1F) * 64 + uint (b1 AND 0x3F)"
            using c True d assemble2 [of "b1 AND 0x3F" "p0 AND 0x1F"] m
            by (simp add: Let_def b1_def)
          with Cons p ub1 show ?thesis
            by (simp add: q m1 valid_rune_def)
        next
          case s2: False
          show ?thesis
          proof (cases "ps ! 1 < 0x80 \<or> 0xBF < ps ! 1")
            case True
            with Cons d c s2 show ?thesis by (auto simp: valid_ReplacementChar Let_def)
          next
            case e: False
            define b2 where "b2 = ps ! 1"
            have ub2: "128 \<le> uint b2" "uint b2 < 192"
              using e by (auto simp: word_less_alt b2_def)
            have m2: "uint (b2 AND 0x3F) = uint b2 - 128"
              using ub2 by (simp add: uint_and_mask_byte mod_window)
            show ?thesis
            proof (cases "sz \<le> 3")
              case True
              with s2 have p: "224 \<le> uint p0" "uint p0 < 240"
                using a b unfolding sz_def by (auto simp: word_less_alt split: if_splits)
              have q: "uint (p0 AND 0x0F) = uint p0 - 224"
                using p by (simp add: uint_and_mask_byte mod_window)
              have lo': "uint p0 = 224 \<longrightarrow> 160 \<le> uint b1"
                using b1 unfolding lo_def by (auto simp: word_less_alt word_uint_eq_iff)
              have hi': "uint p0 = 237 \<longrightarrow> uint b1 \<le> 159"
                using b1 unfolding hi_def by (auto simp: word_less_alt word_uint_eq_iff)
              have "fst (utf8_DecodeRune (p0 # ps))
                      = uint (p0 AND 0x0F) * 4096 + uint (b1 AND 0x3F) * 64 + uint (b2 AND 0x3F)"
                using c s2 e True d assemble3 [of "b1 AND 0x3F" "b2 AND 0x3F" "p0 AND 0x0F"] m
                by (simp add: Let_def b1_def b2_def)
              then have r: "fst (utf8_DecodeRune (p0 # ps))
                      = uint p0 * 4096 + uint b1 * 64 + uint b2 - 925824"
                by (simp add: q m1 m2)
              consider "uint p0 \<le> 236" | "uint p0 = 237" | "238 \<le> uint p0"
                by linarith
              then have "valid_rune (uint p0 * 4096 + uint b1 * 64 + uint b2 - 925824)"
              proof cases
                case 1
                with p ub1 ub2 lo' show ?thesis unfolding valid_rune_def by auto
              next
                case 2
                with p ub1 ub2 hi' show ?thesis unfolding valid_rune_def by auto
              next
                case 3
                with p ub1 ub2 show ?thesis unfolding valid_rune_def by auto
              qed
              with Cons r show ?thesis by simp
            next
              case s3: False
              show ?thesis
              proof (cases "ps ! 2 < 0x80 \<or> 0xBF < ps ! 2")
                case True
                with Cons d c s2 s3 e show ?thesis by (auto simp: valid_ReplacementChar Let_def)
              next
                case f: False
                define b3 where "b3 = ps ! 2"
                have ub3: "128 \<le> uint b3" "uint b3 < 192"
                  using f by (auto simp: word_less_alt b3_def)
                have m3: "uint (b3 AND 0x3F) = uint b3 - 128"
                  using ub3 by (simp add: uint_and_mask_byte mod_window)
                from s3 s2 have p: "240 \<le> uint p0" "uint p0 \<le> 244"
                  using a b unfolding sz_def by (auto simp: word_less_alt split: if_splits)
                have q: "uint (p0 AND 0x07) = uint p0 - 240"
                  using p by (simp add: uint_and_mask_byte mod_window)
                have lo': "uint p0 = 240 \<longrightarrow> 144 \<le> uint b1"
                  using b1 unfolding lo_def by (auto simp: word_less_alt word_uint_eq_iff)
                have hi': "uint p0 = 244 \<longrightarrow> uint b1 \<le> 143"
                  using b1 unfolding hi_def by (auto simp: word_less_alt word_uint_eq_iff)
                have "fst (utf8_DecodeRune (p0 # ps))
                        = uint (p0 AND 0x07) * 262144 + uint (b1 AND 0x3F) * 4096
                          + uint (b2 AND 0x3F) * 64 + uint (b3 AND 0x3F)"
                  using c s2 s3 e f d
                    assemble4 [of "b1 AND 0x3F" "b2 AND 0x3F" "b3 AND 0x3F" "p0 AND 0x07"] m
                  by (simp add: Let_def b1_def b2_def b3_def)
                then have r: "fst (utf8_DecodeRune (p0 # ps))
                        = (uint p0 - 240) * 262144 + (uint b1 - 128) * 4096
                          + (uint b2 - 128) * 64 + (uint b3 - 128)"
                  by (simp only: q m1 m2 m3)
                consider "uint p0 = 240" | "241 \<le> uint p0 \<and> uint p0 \<le> 243" | "uint p0 = 244"
                  using p by linarith
                then have "valid_rune ((uint p0 - 240) * 262144 + (uint b1 - 128) * 4096
                          + (uint b2 - 128) * 64 + (uint b3 - 128))"
                proof cases
                  case 1
                  with ub1 ub2 ub3 lo' show ?thesis unfolding valid_rune_def by auto
                next
                  case 2
                  with ub1 ub2 ub3 show ?thesis unfolding valid_rune_def by auto
                next
                  case 3
                  with ub1 ub2 ub3 hi' show ?thesis unfolding valid_rune_def by auto
                qed
                with Cons r show ?thesis by simp
              qed
            qed
          qed
        qed
      qed
    qed
  qed
qed

subsection \<open>The runes of a text\<close>

lemma runes_valid: "list_all valid_rune (runes bs)"
proof (induction bs rule: runes.induct)
  case 1
  show ?case by simp
next
  case (2 b bs)
  obtain r n where d: "utf8_DecodeRune (b # bs) = (r, n)"
    by (cases "utf8_DecodeRune (b # bs)")
  have "valid_rune r"
    using utf8_DecodeRune_valid [of "b # bs"] d by simp
  moreover have "list_all valid_rune (runes (drop (n - 1) bs))"
    using 2 [OF d [symmetric]] .
  ultimately show ?case
    using d by simp
qed

lemma valid_rune_space: "valid_rune 0x20"
  by (simp add: valid_rune_def)

lemma utf8_EncodeRune_ascii: "0 \<le> r \<Longrightarrow> r < 128 \<Longrightarrow> utf8_EncodeRune r = [word_of_int r]"
  by (simp add: utf8_EncodeRune_def)

lemma utf8_DecodeRune_ascii: "b < 0x80 \<Longrightarrow> utf8_DecodeRune (b # bs) = (uint b, 1)"
  by (simp add: utf8_DecodeRune.simps)

lemma runes_ascii: "list_all (\<lambda>b. b < 0x80) bs \<Longrightarrow> runes bs = map uint bs"
  by (induction bs) (simp_all add: utf8_DecodeRune_ascii)

lemma byte_ascii_uint: "(b::byte) < 0x80 \<longleftrightarrow> uint b < 128"
  by (simp add: word_less_alt)

lemma not_ge_128: "(\<not> (b::byte) \<ge> 128) = (b < 0x80)"
  by (simp add: not_le)

lemma encode_runes_Cons: "encode_runes (r # rs) = utf8_EncodeRune r @ encode_runes rs"
  by (simp add: encode_runes_def)

lemma encode_runes_Nil: "encode_runes [] = []"
  by (simp add: encode_runes_def)

lemma ToLower_ascii:
  "0 \<le> r \<Longrightarrow> r < 128 \<Longrightarrow>
     unicode_ToLower U r = (if 0x41 \<le> r \<and> r \<le> 0x5A then r + 0x20 else r)"
  by (simp add: unicode_ToLower_def is_ascii_rune_def)

lemma ToLower_ascii_range:
  "0 \<le> r \<Longrightarrow> r < 128 \<Longrightarrow> 0 \<le> unicode_ToLower U r \<and> unicode_ToLower U r < 128"
  by (simp add: ToLower_ascii)

lemma lower_byte:
  fixes c :: byte
  assumes "c < 0x80"
  shows "utf8_EncodeRune (unicode_ToLower U (uint c))
           = [if 0x41 \<le> c \<and> c \<le> 0x5A then c + 0x20 else c]"
proof -
  have u: "0 \<le> uint c" "uint c < 128"
    using assms by (simp_all add: word_less_alt)
  have r: "(0x41 \<le> c \<and> c \<le> 0x5A) = (0x41 \<le> uint c \<and> uint c \<le> 0x5A)"
    by (simp add: word_le_def)
  have "word_of_int (uint c + 0x20) = c + 0x20"
    by simp
  then show ?thesis
    using u ToLower_ascii_range [OF u, of U]
    by (simp add: utf8_EncodeRune_ascii ToLower_ascii r)
qed

lemma strings_ToLower_runes:
  "strings_ToLower U s = encode_runes (map (unicode_ToLower U) (runes s))"
proof (cases "\<forall>c \<in> set s. c < 0x80")
  case True
  then have a: "list_all (\<lambda>b. b < 0x80) s"
    by (simp add: list_all_iff)
  have "list_all (\<lambda>b. b < 0x80) s \<Longrightarrow>
          map (\<lambda>c. if 0x41 \<le> c \<and> c \<le> 0x5A then c + 0x20 else c) s
            = encode_runes (map (unicode_ToLower U) (map uint s))"
    by (induction s) (simp_all add: encode_runes_Nil encode_runes_Cons lower_byte)
  with True a show ?thesis
    by (simp add: strings_ToLower_def runes_ascii)
next
  case False
  then show ?thesis
    by (auto simp: strings_ToLower_def)
qed

lemma runes_encode_map:
  assumes "\<And>r. valid_rune r \<Longrightarrow> valid_rune (f r)"
  shows "runes (encode_runes (map f (runes bs))) = map f (runes bs)"
proof -
  have "list_all valid_rune (map f (runes bs))"
    using runes_valid [of bs] assms by (simp add: list_all_iff)
  then show ?thesis
    by (rule runes_encode_runes)
qed

subsection \<open>\<^verbatim>\<open>DefaultNormalizer\<close> code point by code point\<close>

lemma DefaultNormalizer_runes:
  assumes "\<forall>r. valid_rune r \<longrightarrow> valid_rune (unicode_ToLower U r)"
  shows "DefaultNormalizer_Normalize U text = encode_runes (map (lower_or_space U) (runes text))"
proof -
  have "runes (strings_ToLower U text) = map (unicode_ToLower U) (runes text)"
    unfolding strings_ToLower_runes using assms by (intro runes_encode_map) simp
  then show ?thesis
    by (simp add: DefaultNormalizer_Normalize_def lower_or_space_def [abs_def] comp_def)
qed

lemma IsPunct_space: "\<not> unicode_IsPunct U 0x20"
  by (simp add: unicode_IsPunct_def is_ascii_rune_def ascii_punct_def)

lemma IsSpace_space: "unicode_IsSpace U 0x20"
  by (simp add: unicode_IsSpace_def is_ascii_rune_def)

lemma IsUpper_space: "\<not> unicode_IsUpper U 0x20"
  by (simp add: unicode_IsUpper_def is_ascii_rune_def)

lemma ToLower_space: "unicode_ToLower U 0x20 = 0x20"
  by (simp add: unicode_ToLower_def is_ascii_rune_def)

lemma lower_or_space_idem:
  assumes "\<forall>r. unicode_ToLower U (unicode_ToLower U r) = unicode_ToLower U r"
  shows "lower_or_space U (lower_or_space U r) = lower_or_space U r"
  using assms by (simp add: lower_or_space_def ToLower_space IsPunct_space)

lemma lower_or_space_valid:
  assumes "\<forall>r. valid_rune r \<longrightarrow> valid_rune (unicode_ToLower U r)"
  shows "valid_rune r \<Longrightarrow> valid_rune (lower_or_space U r)"
  using assms by (simp add: lower_or_space_def valid_rune_space)

lemma DefaultNormalizer_idempotent:
  assumes "\<forall>r. unicode_ToLower U (unicode_ToLower U r) = unicode_ToLower U r"
    and "\<forall>r. valid_rune r \<longrightarrow> valid_rune (unicode_ToLower U r)"
  shows "DefaultNormalizer_Normalize U (DefaultNormalizer_Normalize U x)
           = DefaultNormalizer_Normalize U x"
proof -
  have "runes (encode_runes (map (lower_or_space U) (runes x))) = map (lower_or_space U) (runes x)"
    using lower_or_space_valid [OF assms(2)] by (rule runes_encode_map)
  then show ?thesis
    using lower_or_space_idem [OF assms(1)]
    by (simp add: DefaultNormalizer_runes [OF assms(2)] comp_def)
qed

subsection \<open>\<^verbatim>\<open>FastNormalizer\<close> code point by code point\<close>

lemma IsUpper_ascii:
  "0 \<le> r \<Longrightarrow> r < 128 \<Longrightarrow> unicode_IsUpper U r = (0x41 \<le> r \<and> r \<le> 0x5A)"
  by (simp add: unicode_IsUpper_def is_ascii_rune_def)

lemma fast_entry:
  assumes "0 \<le> r" "r < 128"
  shows "(if fst (fastTable U (nat r)) then snd (fastTable U (nat r)) else r) = space_or_lower U r"
  using assms by (simp add: fastTable_def space_or_lower_def ToLower_ascii IsUpper_ascii)

lemma runes_nonneg: "r \<in> set (runes text) \<Longrightarrow> 0 \<le> r"
  using runes_valid [of "text"] by (auto simp: list_all_iff valid_rune_def)

lemma FastNormalizer_runes:
  "FastNormalizer_Normalize U text = encode_runes (map (space_or_lower U) (runes text))"
proof -
  have a: "map (\<lambda>r. if fst (fastTable U (nat r)) then snd (fastTable U (nat r)) else r)
             (runes text) = map (space_or_lower U) (runes text)"
    if "list_all (\<lambda>r. \<not> r \<ge> 128) (runes text)"
    using that by (intro map_cong refl) (auto simp: list_all_iff fast_entry runes_nonneg not_le)
  have b: "map (\<lambda>r. if r < 128
                     then (if fst (fastTable U (nat r)) then snd (fastTable U (nat r)) else r)
                     else if unicode_IsPunct U r then 0x20 else unicode_ToLower U r)
             (runes text) = map (space_or_lower U) (runes text)"
    by (intro map_cong refl) (auto simp: fast_entry runes_nonneg space_or_lower_def)
  show ?thesis
    by (auto simp: FastNormalizer_Normalize_def a b encode_runes_Nil)
qed

lemma space_or_lower_idem:
  assumes "\<forall>r. unicode_ToLower U (unicode_ToLower U r) = unicode_ToLower U r"
    and "\<forall>r. \<not> unicode_IsPunct U r \<longrightarrow> \<not> unicode_IsPunct U (unicode_ToLower U r)"
  shows "space_or_lower U (space_or_lower U r) = space_or_lower U r"
  using assms by (simp add: space_or_lower_def ToLower_space IsPunct_space)

lemma space_or_lower_valid:
  assumes "\<forall>r. valid_rune r \<longrightarrow> valid_rune (unicode_ToLower U r)"
  shows "valid_rune r \<Longrightarrow> valid_rune (space_or_lower U r)"
  using assms by (simp add: space_or_lower_def valid_rune_space)

lemma FastNormalizer_idempotent:
  assumes "\<forall>r. unicode_ToLower U (unicode_ToLower U r) = unicode_ToLower U r"
    and "\<forall>r. \<not> unicode_IsPunct U r \<longrightarrow> \<not> unicode_IsPunct U (unicode_ToLower U r)"
    and "\<forall>r. valid_rune r \<longrightarrow> valid_rune (unicode_ToLower U r)"
  shows "FastNormalizer_Normalize U (FastNormalizer_Normalize U x) = FastNormalizer_Normalize U x"
proof -
  have "runes (encode_runes (map (space_or_lower U) (runes x))) = map (space_or_lower U) (runes x)"
    using space_or_lower_valid [OF assms(3)] by (rule runes_encode_map)
  then show ?thesis
    using space_or_lower_idem [OF assms(1,2)]
    by (simp add: FastNormalizer_runes comp_def)
qed

subsection \<open>\<^verbatim>\<open>OptimizedNormalizer\<close> follows the rule in words\<close>

lemma optTable_ascii:
  assumes "0 \<le> r" "r < 128"
  shows "optTable U (nat r) =
           (if unicode_IsPunct U r \<or> unicode_IsSpace U r then 1
            else if 0x41 \<le> r \<and> r \<le> 0x5A then 2 else 0)"
  using assms by (simp add: optTable_def IsUpper_ascii)

lemma IsSpace_20: "\<not> unicode_IsSpace U r \<Longrightarrow> r \<noteq> 0x20"
  using IsSpace_space [of U] by auto

lemma optUnicode_spec:
  assumes "\<forall>r. \<not> unicode_IsSpace U r \<longrightarrow> \<not> unicode_IsSpace U (unicode_ToLower U r)"
  shows "list_all valid_rune rs \<Longrightarrow>
           optUnicode_loop U rs lws = encode_runes (spec_Normalize_runes U rs lws)"
proof (induction rs arbitrary: lws)
  case Nil
  show ?case by (simp add: encode_runes_Nil)
next
  case (Cons r rs)
  then have v: "list_all valid_rune rs" and "valid_rune r"
    by simp_all
  then have r: "0 \<le> r"
    by (simp add: valid_rune_def)
  note IH = Cons.IH [OF v]
  show ?case
  proof (cases "unicode_IsPunct U r \<or> unicode_IsSpace U r")
    case True
    then show ?thesis
      using r by (simp add: IH optTable_ascii encode_runes_Cons utf8_EncodeRune_ascii)
  next
    case False
    then have n: "unicode_ToLower U r \<noteq> 0x20"
      using assms IsSpace_20 by blast
    show ?thesis
    proof (cases "r < 128")
      case True
      have "word_of_int r + (0x61 - 0x41 :: byte) = word_of_int (r + 0x20)"
        by simp
      then show ?thesis
        using r True False n ToLower_ascii_range [OF r True, of U]
        by (simp add: IH optTable_ascii encode_runes_Cons utf8_EncodeRune_ascii ToLower_ascii)
    next
      case b: False
      with False n show ?thesis
        by (simp add: IH encode_runes_Cons)
    qed
  qed
qed

lemma optASCII_optUnicode:
  "list_all (\<lambda>b. b < 0x80) text \<Longrightarrow>
     optASCII_loop U text lws = optUnicode_loop U (map uint text) lws"
proof (induction "text" arbitrary: lws)
  case Nil
  show ?case by simp
next
  case (Cons b bs)
  then have u: "uint b < 128" and a: "list_all (\<lambda>b. b < 0x80) bs"
    by (simp_all add: word_less_alt)
  have n: "nat (uint b) = unat b"
    by simp
  show ?case
    using u by (simp add: Cons.IH [OF a] n)
qed

lemma OptimizedNormalizer_spec:
  assumes "\<forall>r. \<not> unicode_IsSpace U r \<longrightarrow> \<not> unicode_IsSpace U (unicode_ToLower U r)"
  shows "OptimizedNormalizer_Normalize U text = spec_Normalize U text"
proof -
  have a: "optUnicode_loop U (runes text) False
             = encode_runes (spec_Normalize_runes U (runes text) False)"
    using assms runes_valid by (rule optUnicode_spec)
  show ?thesis
  proof (cases "list_all (\<lambda>b. b < 0x80) text")
    case True
    then show ?thesis
      using a by (simp add: OptimizedNormalizer_Normalize_def spec_Normalize_def not_ge_128
          optASCII_optUnicode runes_ascii encode_runes_Nil)
  next
    case False
    then have "text \<noteq> []" by auto
    with False show ?thesis
      using a by (simp add: OptimizedNormalizer_Normalize_def spec_Normalize_def not_ge_128)
  qed
qed

lemma spec_Normalize_runes_fixed:
  assumes "\<forall>r. unicode_ToLower U (unicode_ToLower U r) = unicode_ToLower U r"
    and "\<forall>r. \<not> unicode_IsPunct U r \<longrightarrow> \<not> unicode_IsPunct U (unicode_ToLower U r)"
    and "\<forall>r. \<not> unicode_IsSpace U r \<longrightarrow> \<not> unicode_IsSpace U (unicode_ToLower U r)"
  shows "(b \<longrightarrow> a) \<Longrightarrow>
           spec_Normalize_runes U (spec_Normalize_runes U rs a) b = spec_Normalize_runes U rs a"
proof (induction rs arbitrary: a b)
  case Nil
  show ?case by simp
next
  case (Cons r rs)
  show ?case
  proof (cases "unicode_IsPunct U r \<or> unicode_IsSpace U r")
    case True
    then show ?thesis
      using Cons.prems Cons.IH [of True True] Cons.IH [of b True]
      by (auto simp: IsSpace_space)
  next
    case False
    then have n: "unicode_ToLower U r \<noteq> 0x20"
      using assms(3) IsSpace_20 by blast
    from False have "\<not> unicode_IsPunct U (unicode_ToLower U r)"
      "\<not> unicode_IsSpace U (unicode_ToLower U r)"
      using assms(2,3) by auto
    then show ?thesis
      using False n assms(1) Cons.IH [of False False]
      by simp
  qed
qed

lemma spec_Normalize_runes_valid:
  assumes "\<forall>r. valid_rune r \<longrightarrow> valid_rune (unicode_ToLower U r)"
  shows "list_all valid_rune rs \<Longrightarrow> list_all valid_rune (spec_Normalize_runes U rs a)"
  using assms by (induction rs arbitrary: a) (simp_all add: valid_rune_space)

lemma OptimizedNormalizer_idempotent:
  assumes "\<forall>r. unicode_ToLower U (unicode_ToLower U r) = unicode_ToLower U r"
    and "\<forall>r. \<not> unicode_IsPunct U r \<longrightarrow> \<not> unicode_IsPunct U (unicode_ToLower U r)"
    and "\<forall>r. \<not> unicode_IsSpace U r \<longrightarrow> \<not> unicode_IsSpace U (unicode_ToLower U r)"
    and "\<forall>r. valid_rune r \<longrightarrow> valid_rune (unicode_ToLower U r)"
  shows "OptimizedNormalizer_Normalize U (OptimizedNormalizer_Normalize U x)
           = OptimizedNormalizer_Normalize U x"
proof -
  have "list_all valid_rune (spec_Normalize_runes U (runes x) False)"
    using assms(4) runes_valid by (rule spec_Normalize_runes_valid)
  then have "runes (encode_runes (spec_Normalize_runes U (runes x) False))
               = spec_Normalize_runes U (runes x) False"
    by (rule runes_encode_runes)
  then show ?thesis
    using spec_Normalize_runes_fixed [OF assms(1-3), of False False "runes x"]
    by (simp add: OptimizedNormalizer_spec [OF assms(3)] spec_Normalize_def)
qed

subsection \<open>\<^verbatim>\<open>AllocationEfficientNormalizer\<close> on ASCII text\<close>

lemma IsPunct_not_upper:
  "0 \<le> r \<Longrightarrow> r < 128 \<Longrightarrow> unicode_IsPunct U r \<Longrightarrow> \<not> (0x41 \<le> r \<and> r \<le> 0x5A)"
  by (auto simp: unicode_IsPunct_def is_ascii_rune_def ascii_punct_def)

lemma asciiTable_ascii:
  fixes b :: byte
  assumes "b < 0x80"
  shows "asciiTable U (unat b) =
           (if unicode_IsPunct U (uint b) then (True, 0x20)
            else if 0x41 \<le> uint b \<and> uint b \<le> 0x5A then (True, b + 0x20)
            else (False, 0))"
proof -
  have u: "0 \<le> uint b" "uint b < 128"
    using assms by (simp_all add: word_less_alt)
  have "word_of_int (uint b + 0x20) = b + 0x20"
    by simp
  then show ?thesis
    using u by (simp add: asciiTable_def IsUpper_ascii ToLower_ascii)
qed

lemma upper_byte_not_zero:
  fixes b :: byte
  shows "0x41 \<le> uint b \<Longrightarrow> b \<noteq> 0"
  by auto

lemma normalizeASCII_punct_rule:
  "list_all (\<lambda>b. b < 0x80) src \<Longrightarrow>
     normalizeASCII_loop U src lws = encode_runes (punct_rule U (map uint src) lws)"
proof (induction src arbitrary: lws)
  case Nil
  show ?case by (simp add: encode_runes_Nil)
next
  case (Cons b src)
  then have b: "b < 0x80" and a: "list_all (\<lambda>b. b < 0x80) src"
    by simp_all
  have u: "0 \<le> uint b" "uint b < 128"
    using b by (simp_all add: word_less_alt)
  have w: "word_of_int (uint b + 0x20) = b + 0x20"
    by simp
  show ?case
    using b u ToLower_ascii_range [OF u, of U]
    by (auto simp: Cons.IH [OF a] asciiTable_ascii encode_runes_Cons utf8_EncodeRune_ascii
        ToLower_ascii upper_byte_not_zero w)
qed

lemma AllocationEfficientNormalizer_ascii:
  assumes "list_all (\<lambda>b. b < 0x80) src"
  shows "AllocationEfficientNormalizer_Normalize U src
           = encode_runes (punct_rule U (runes src) False)"
  using assms
  by (simp add: AllocationEfficientNormalizer_Normalize_def normalizeASCII_def not_ge_128
      normalizeASCII_punct_rule runes_ascii encode_runes_Nil)

lemma AllocationEfficientNormalizer_loop:
  "AllocationEfficientNormalizer_Normalize U src = normalizeUnicode_loop U src False"
  by (simp add: AllocationEfficientNormalizer_Normalize_def normalizeASCII_def
      normalizeUnicode_def not_ge_128 normalize_loops_agree)

lemma and_255: "0 \<le> (x::int) \<Longrightarrow> x < 256 \<Longrightarrow> x AND 255 = x"
proof -
  assume a: "0 \<le> x" "x < 256"
  have "x AND mask 8 = take_bit 8 x"
    by (simp add: take_bit_eq_mask)
  also have "\<dots> = x"
    using a by (simp add: take_bit_int_eq_self)
  finally show ?thesis
    by (simp add: mask_eq_exp_minus_1)
qed

lemma and_192:
  assumes "0 \<le> (x::int)" "x < 256"
  shows "x AND 192 = x - x mod 64"
proof -
  have d: "(192::int) OR 63 = 255" "(192::int) AND 63 = 0"
    by simp_all
  have "x = x AND (192 OR 63)"
    using and_255 [OF assms] d by simp
  also have "\<dots> = (x AND 192) OR (x AND 63)"
    by (rule bit.conj_disj_distrib)
  also have "\<dots> = (x AND 192) + (x AND 63)"
  proof (rule disjunctive_add [symmetric])
    fix n
    have "bit ((192::int) AND 63) n = (bit (192::int) n \<and> bit (63::int) n)"
      by (rule bit_and_iff)
    then have "\<not> (bit (192::int) n \<and> bit (63::int) n)"
      unfolding d by simp
    then show "\<not> bit (x AND 192) n \<or> \<not> bit (x AND 63) n"
      unfolding bit_and_iff by blast
  qed
  finally show ?thesis
    by (simp add: int_and_mask)
qed

lemma cont_iff:
  fixes b :: byte
  shows "(b AND 0xC0 = 0x80) = (128 \<le> uint b \<and> uint b < 192)"
proof -
  have "(b AND 0xC0 = 0x80) = (uint b AND 192 = 128)"
    by (simp add: word_uint_eq_iff unsigned_and_eq)
  also have "\<dots> = (uint b - uint b mod 64 = 128)"
    using and_192 [of "uint b"] uint_byte_bounds [of b] by simp
  also have "\<dots> = (128 \<le> uint b \<and> uint b < 192)"
  proof
    assume "uint b - uint b mod 64 = 128"
    then show "128 \<le> uint b \<and> uint b < 192"
      using dm64 (2,3) [of "uint b"] by linarith
  next
    assume "128 \<le> uint b \<and> uint b < 192"
    then show "uint b - uint b mod 64 = 128"
      by (simp add: mod_window)
  qed
  finally show ?thesis .
qed

subsection \<open>The decoder of the allocation-efficient normalizer\<close>

lemma conts_1: "conts 1 bs = (bs \<noteq> [] \<and> bs ! 0 AND 0xC0 = 0x80)"
  by (cases bs) simp_all

lemma conts_2:
  "conts 2 bs = (2 \<le> length bs \<and> bs ! 0 AND 0xC0 = 0x80 \<and> bs ! 1 AND 0xC0 = 0x80)"
proof (cases bs)
  case Nil
  then show ?thesis by (simp add: numeral_2_eq_2)
next
  case (Cons x xs)
  then show ?thesis by (cases xs) (simp_all add: numeral_2_eq_2)
qed

lemma conts_3:
  "conts 3 bs = (3 \<le> length bs \<and> bs ! 0 AND 0xC0 = 0x80 \<and> bs ! 1 AND 0xC0 = 0x80
                 \<and> bs ! 2 AND 0xC0 = 0x80)"
proof (cases bs)
  case Nil
  then show ?thesis by (simp add: numeral_3_eq_3)
next
  case a: (Cons x xs)
  show ?thesis
  proof (cases xs)
    case Nil
    with a show ?thesis by (simp add: numeral_3_eq_3)
  next
    case (Cons y ys)
    with a show ?thesis by (cases ys) (simp_all add: numeral_3_eq_3)
  qed
qed

lemma DecodeRune_conts:
  "DecodeRune (b0 # bs) =
     (if b0 < 0x80 then (uint b0, 1)
      else if b0 < 0xC0 \<or> b0 > 0xF7 then (ReplacementChar, 1)
      else if b0 < 0xE0 then
        (if \<not> conts 1 bs then (ReplacementChar, 1)
         else (uint (push_bit 6 (ucast (b0 AND 0x1F) :: 32 word) OR ucast ((bs ! 0) AND 0x3F)), 2))
      else if b0 < 0xF0 then
        (if \<not> conts 2 bs then (ReplacementChar, 1)
         else (uint (push_bit 12 (ucast (b0 AND 0x0F) :: 32 word)
                     OR push_bit 6 (ucast ((bs ! 0) AND 0x3F)) OR ucast ((bs ! 1) AND 0x3F)), 3))
      else
        (if \<not> conts 3 bs then (ReplacementChar, 1)
         else (uint (push_bit 18 (ucast (b0 AND 0x07) :: 32 word)
                     OR push_bit 12 (ucast ((bs ! 0) AND 0x3F))
                     OR push_bit 6 (ucast ((bs ! 1) AND 0x3F)) OR ucast ((bs ! 2) AND 0x3F)), 4)))"
  unfolding conts_1 conts_2 conts_3 DecodeRune.simps by auto

lemma conts_length: "conts k bs \<Longrightarrow> k \<le> length bs"
proof (induction k arbitrary: bs)
  case 0
  show ?case by simp
next
  case (Suc k)
  then show ?case by (cases bs) auto
qed

lemma conts_take_append: "conts k bs \<Longrightarrow> conts k (take k bs @ zs)"
proof (induction k arbitrary: bs)
  case 0
  show ?case by simp
next
  case (Suc k)
  then show ?case by (cases bs) auto
qed

lemma nth_take_append: "i < k \<Longrightarrow> k \<le> length bs \<Longrightarrow> (take k bs @ zs) ! i = bs ! i"
  by (simp add: nth_append)

lemma DecodeRune_size:
  assumes "DecodeRune (b0 # bs) = (r, n)"
  shows "1 \<le> n" and "n - 1 \<le> length bs" and "conts (n - 1) bs"
  using assms conts_length [of 1 bs] conts_length [of 2 bs] conts_length [of 3 bs]
  by (auto simp: DecodeRune_conts split: if_splits)

lemma DecodeRune_stable:
  assumes "DecodeRune (b0 # bs) = (r, n)" "2 \<le> n"
  shows "DecodeRune (b0 # take (n - 1) bs @ zs) = (r, n)"
proof -
  have c: "conts (n - 1) bs" and l: "n - 1 \<le> length bs"
    using DecodeRune_size [OF assms(1)] by simp_all
  have t: "conts (n - 1) (take (n - 1) bs @ zs)"
    using c by (rule conts_take_append)
  have e: "\<And>i. i < n - 1 \<Longrightarrow> (take (n - 1) bs @ zs) ! i = bs ! i"
    using l by (simp add: nth_take_append)
  consider "n = 2" | "n = 3" | "n = 4"
    using assms by (auto simp: DecodeRune_conts split: if_splits)
  then show ?thesis
  proof cases
    case 1
    with assms(1) t e [of 0] show ?thesis
      by (auto simp: DecodeRune_conts split: if_splits)
  next
    case 2
    with assms(1) t e [of 0] e [of 1] show ?thesis
      by (auto simp: DecodeRune_conts split: if_splits)
  next
    case 3
    with assms(1) t e [of 0] e [of 1] e [of 2] show ?thesis
      by (auto simp: DecodeRune_conts split: if_splits)
  qed
qed

lemma DecodeRune_fails:
  assumes "\<not> b0 < 0x80" "DecodeRune (b0 # ys) = (r, 1)" "\<And>k. conts k xs \<Longrightarrow> conts k ys"
  shows "DecodeRune (b0 # xs) = (r, 1)"
  using assms(1,2) assms(3) [of 1] assms(3) [of 2] assms(3) [of 3]
  by (auto simp: DecodeRune_conts split: if_splits)

lemma DecodeRune_cont_byte:
  assumes "b0 AND 0xC0 = 0x80"
  shows "DecodeRune (b0 # bs) = (ReplacementChar, 1)"
proof -
  have "\<not> b0 < 0x80" "b0 < 0xC0"
    using assms by (simp_all add: cont_iff word_less_alt)
  then show ?thesis
    by (simp add: DecodeRune_conts)
qed

lemma word_of_int_or: "(word_of_int (a OR b) :: byte) = word_of_int a OR word_of_int b"
  by (simp add: word_wi_log_defs)

lemma word_of_int_and: "(word_of_int (a AND b) :: byte) = word_of_int a AND word_of_int b"
  by (simp add: word_wi_log_defs)

lemma appendLower_valid:
  assumes "valid_rune l"
  shows "appendLower l = utf8_EncodeRune l"
proof -
  have v: "0 \<le> l" "\<not> 0x10FFFF < l" "\<not> (0xD800 \<le> l \<and> l \<le> 0xDFFF)"
    using assms by (simp_all add: valid_rune_def)
  have c: "(l < 128) = (l \<le> 0x7F)" "(l < 2048) = (l \<le> 0x7FF)" "(l < 65536) = (l \<le> 0xFFFF)"
    by auto
  show ?thesis
    unfolding appendLower_def utf8_EncodeRune_def word_of_int_or word_of_int_and c
    using v by auto
qed

lemma utf8_DecodeRune_lax:
  assumes "utf8_DecodeRune (p0 # ps) = (r, n)" "2 \<le> n"
  shows "DecodeRune (p0 # ps) = (r, n)"
proof -
  have a: "\<not> p0 < 0x80" "\<not> (p0 < 0xC2 \<or> 0xF4 < p0)"
    using assms by (auto simp: utf8_DecodeRune.simps split: if_splits)
  then have b: "\<not> (p0 < 0xC0 \<or> p0 > 0xF7)"
    by (auto simp: word_less_alt)
  define lo :: byte where "lo = (if p0 = 0xE0 then 0xA0 else if p0 = 0xF0 then 0x90 else 0x80)"
  define hi :: byte where "hi = (if p0 = 0xED then 0x9F else if p0 = 0xF4 then 0x8F else 0xBF)"
  have lh: "\<And>x. \<not> (x < lo \<or> hi < x) \<Longrightarrow> x AND 0xC0 = 0x80"
    unfolding lo_def hi_def by (auto simp: cont_iff word_less_alt split: if_splits)
  have m: "\<And>x::byte. \<not> (x < 0x80 \<or> 0xBF < x) \<Longrightarrow> x AND 0xC0 = 0x80"
    by (auto simp: cont_iff word_less_alt)
  show ?thesis
  proof (cases "p0 < 0xE0")
    case True
    with assms a b lh [of "ps ! 0"] show ?thesis
      unfolding lo_def hi_def
      by (auto simp: utf8_DecodeRune.simps DecodeRune.simps Let_def split: if_splits)
  next
    case c: False
    show ?thesis
    proof (cases "p0 < 0xF0")
      case True
      with c assms a b lh [of "ps ! 0"] m [of "ps ! 1"] show ?thesis
        unfolding lo_def hi_def
        by (auto simp: utf8_DecodeRune.simps DecodeRune.simps Let_def split: if_splits)
    next
      case False
      with c assms a b lh [of "ps ! 0"] m [of "ps ! 1"] m [of "ps ! 2"] show ?thesis
        unfolding lo_def hi_def
        by (auto simp: utf8_DecodeRune.simps DecodeRune.simps Let_def split: if_splits)
    qed
  qed
qed

lemma length_utf8_EncodeRune_2: "valid_rune l \<Longrightarrow> 128 \<le> l \<Longrightarrow> 2 \<le> length (utf8_EncodeRune l)"
  by (auto simp: utf8_EncodeRune_def valid_rune_def)

lemma DecodeRune_enc:
  assumes "valid_rune l" "128 \<le> l"
  shows "DecodeRune (utf8_EncodeRune l @ rest) = (l, length (utf8_EncodeRune l))"
proof -
  obtain b bs where e: "utf8_EncodeRune l @ rest = b # bs"
    using length_utf8_EncodeRune [of l] by (cases "utf8_EncodeRune l @ rest") auto
  have "utf8_DecodeRune (b # bs) = (l, length (utf8_EncodeRune l))"
    using enc_dec [OF assms(1), of rest] e by simp
  then have "DecodeRune (b # bs) = (l, length (utf8_EncodeRune l))"
    using length_utf8_EncodeRune_2 [OF assms] by (rule utf8_DecodeRune_lax)
  then show ?thesis
    using e by simp
qed

lemma ascii_not_cont:
  fixes b :: byte
  shows "b < 0x80 \<Longrightarrow> b AND 0xC0 \<noteq> 0x80"
  by (simp add: cont_iff word_less_alt)

lemma enc_first_byte:
  assumes "valid_rune l" "128 \<le> l"
  shows "\<exists>b bs. utf8_EncodeRune l = b # bs \<and> \<not> b < 0x80 \<and> b AND 0xC0 \<noteq> 0x80"
proof -
  obtain b bs where e: "utf8_EncodeRune l = b # bs"
    using length_utf8_EncodeRune [of l] by (cases "utf8_EncodeRune l") auto
  have d: "DecodeRune (b # bs) = (l, length (utf8_EncodeRune l))"
    using DecodeRune_enc [OF assms, of "[]"] e by simp
  have n: "2 \<le> length (utf8_EncodeRune l)"
    using assms by (rule length_utf8_EncodeRune_2)
  have "\<not> b < 0x80"
    using d n by (auto simp: DecodeRune_conts)
  moreover have "b AND 0xC0 \<noteq> 0x80"
    using d n DecodeRune_cont_byte [of b bs] by auto
  ultimately show ?thesis
    using e by simp
qed

lemma appendLower_first:
  assumes "valid_rune l"
  shows "\<exists>c cs. appendLower l = c # cs \<and> c AND 0xC0 \<noteq> 0x80"
proof (cases "l < 128")
  case True
  have "0 \<le> l"
    using assms by (simp add: valid_rune_def)
  with True have "uint (word_of_int l :: byte) = l"
    by (simp add: uint_word_of_int_eq take_bit_int_eq_self)
  with True have "(word_of_int l :: byte) AND 0xC0 \<noteq> 0x80"
    by (simp add: cont_iff)
  with True show ?thesis
    by (simp add: appendLower_def)
next
  case False
  then show ?thesis
    using enc_first_byte [OF assms] by (auto simp: appendLower_valid [OF assms])
qed

lemma upper_byte_ascii:
  fixes b :: byte
  assumes "0x41 \<le> uint b" "uint b \<le> 0x5A"
  shows "uint (b + 0x20) = uint b + 0x20" and "b + 0x20 < 0x80"
proof -
  have "uint (b + 0x20) = (uint b + 0x20) mod 256"
    by (simp add: uint_word_ariths)
  then show a: "uint (b + 0x20) = uint b + 0x20"
    using assms by simp
  show "b + 0x20 < 0x80"
    using assms by (simp add: word_less_alt a)
qed

lemma loop_first_byte:
  assumes "\<forall>r. unicode_IsUpper U r \<longrightarrow> valid_rune (unicode_ToLower U r)"
  shows "\<exists>c out. normalizeUnicode_loop U (b # src) False = c # out
           \<and> (c AND 0xC0 = 0x80 \<longrightarrow>
                 b AND 0xC0 = 0x80 \<and> out = normalizeUnicode_loop U src False)"
proof (cases "b < 0x80")
  case True
  then show ?thesis
    using ascii_not_cont [of b] upper_byte_ascii(2) [of b]
    by (auto simp: asciiTable_ascii dest: ascii_not_cont)
next
  case False
  obtain r sz where d: "DecodeRune (b # src) = (r, sz)"
    by (cases "DecodeRune (b # src)")
  have sz: "1 \<le> sz"
    using d by (rule DecodeRune_size)
  then have t: "take sz (b # src) = b # take (sz - 1) src"
    by (cases sz) simp_all
  show ?thesis
  proof (cases "unicode_IsPunct U r \<or> unicode_IsSpace U r")
    case True
    with False d show ?thesis
      by (simp add: decodeRune_def)
  next
    case p: False
    show ?thesis
    proof (cases "unicode_IsUpper U r")
      case True
      then obtain c cs where "appendLower (unicode_ToLower U r) = c # cs" "c AND 0xC0 \<noteq> 0x80"
        using assms appendLower_first by blast
      with False d p True show ?thesis
        by (simp add: decodeRune_def)
    next
      case u: False
      show ?thesis
      proof (cases "b AND 0xC0 = 0x80")
        case True
        then have "sz = 1"
          using d DecodeRune_cont_byte [of b src] by simp
        with False d p u show ?thesis
          by (simp add: decodeRune_def)
      next
        case n: False
        with False d p u t show ?thesis
          by (simp add: decodeRune_def)
      qed
    qed
  qed
qed

lemma conts_loop:
  assumes "\<forall>r. unicode_IsUpper U r \<longrightarrow> valid_rune (unicode_ToLower U r)"
  shows "conts k (normalizeUnicode_loop U src False) \<Longrightarrow> conts k src"
proof (induction src arbitrary: k)
  case Nil
  then show ?case by simp
next
  case (Cons b src)
  show ?case
  proof (cases k)
    case 0
    then show ?thesis by simp
  next
    case (Suc j)
    obtain c out where o: "normalizeUnicode_loop U (b # src) False = c # out"
      and c: "c AND 0xC0 = 0x80 \<longrightarrow>
                b AND 0xC0 = 0x80 \<and> out = normalizeUnicode_loop U src False"
      using loop_first_byte [OF assms, of b src] by blast
    from Cons.prems Suc o have "c AND 0xC0 = 0x80" "conts j out"
      by simp_all
    with c Cons.IH [of j] Suc show ?thesis
      by simp
  qed
qed

lemma IsPunct_lower_letter: "0x61 \<le> r \<Longrightarrow> r \<le> 0x7A \<Longrightarrow> \<not> unicode_IsPunct U r"
  by (auto simp: unicode_IsPunct_def is_ascii_rune_def ascii_punct_def)

lemma loop_space:
  "normalizeUnicode_loop U (0x20 # X) lws = 0x20 # normalizeUnicode_loop U X False"
proof -
  have "asciiTable U (unat (0x20 :: byte)) = (False, 0)"
    using asciiTable_ascii [of "0x20" U] by (simp add: IsPunct_space)
  then show ?thesis
    by simp
qed

lemma loop_kept_byte:
  fixes c :: byte
  assumes "c < 0x80" "\<not> unicode_IsPunct U (uint c)" "\<not> (0x41 \<le> uint c \<and> uint c \<le> 0x5A)"
  shows "normalizeUnicode_loop U (c # X) lws = c # normalizeUnicode_loop U X False"
  using assms by (auto simp: asciiTable_ascii)

lemma loop_appendLower:
  assumes "valid_rune l" "\<not> unicode_IsPunct U l" "\<not> unicode_IsSpace U l"
    "unicode_ToLower U l = l"
  shows "normalizeUnicode_loop U (appendLower l @ X) lws
           = appendLower l @ normalizeUnicode_loop U X False"
proof (cases "l < 128")
  case True
  have l: "0 \<le> l"
    using assms(1) by (simp add: valid_rune_def)
  with True have u: "uint (word_of_int l :: byte) = l"
    by (simp add: uint_word_of_int_eq take_bit_int_eq_self)
  have n: "\<not> (0x41 \<le> l \<and> l \<le> 0x5A)"
    using assms(4) l True by (auto simp: ToLower_ascii)
  have "normalizeUnicode_loop U (word_of_int l # X) lws
          = word_of_int l # normalizeUnicode_loop U X False"
    using True u assms(2) n by (intro loop_kept_byte) (simp_all add: word_less_alt)
  with True show ?thesis
    by (simp add: appendLower_def)
next
  case False
  then have g: "128 \<le> l" by simp
  obtain c cs where e: "utf8_EncodeRune l = c # cs" and c: "\<not> c < 0x80"
    using enc_first_byte [OF assms(1) g] by blast
  have d: "DecodeRune (c # cs @ X) = (l, Suc (length cs))"
    using DecodeRune_enc [OF assms(1) g, of X] e by simp
  show ?thesis
    using c d assms(2-4)
    by (simp add: appendLower_valid [OF assms(1)] e decodeRune_def)
qed

lemma normalizeUnicode_loop_fixed:
  assumes idem: "\<forall>r. unicode_ToLower U (unicode_ToLower U r) = unicode_ToLower U r"
    and punct: "\<forall>r. \<not> unicode_IsPunct U r \<longrightarrow> \<not> unicode_IsPunct U (unicode_ToLower U r)"
    and space: "\<forall>r. \<not> unicode_IsSpace U r \<longrightarrow> \<not> unicode_IsSpace U (unicode_ToLower U r)"
    and upper: "\<forall>r. unicode_IsUpper U r \<longrightarrow> valid_rune (unicode_ToLower U r)"
  shows "normalizeUnicode_loop U (normalizeUnicode_loop U src a) a'
           = normalizeUnicode_loop U src a"
proof (induction "length src" arbitrary: src a a' rule: less_induct)
  case less
  show ?case
  proof (cases src)
    case Nil
    then show ?thesis by simp
  next
    case (Cons b bs)
    have IH: "\<And>xs x x'. length xs \<le> length bs \<Longrightarrow>
                normalizeUnicode_loop U (normalizeUnicode_loop U xs x) x'
                  = normalizeUnicode_loop U xs x"
      using less Cons by simp
    show ?thesis
    proof (cases "b < 0x80")
      case True
      have u: "0 \<le> uint b" "uint b < 128"
        using True by (simp_all add: word_less_alt)
      show ?thesis
      proof (cases "unicode_IsPunct U (uint b)")
        case p: True
        show ?thesis
        proof (cases a)
          case a: True
          with True p Cons show ?thesis
            by (simp add: asciiTable_ascii IH)
        next
          case a: False
          with True p Cons have o: "normalizeUnicode_loop U src a
                  = 0x20 # normalizeUnicode_loop U bs True"
            by (simp add: asciiTable_ascii)
          show ?thesis
            unfolding o loop_space using IH [of bs True False] by simp
        qed
      next
        case p: False
        show ?thesis
        proof (cases "0x41 \<le> uint b \<and> uint b \<le> 0x5A")
          case up: True
          then have v: "uint (b + 0x20) = uint b + 0x20" "b + 0x20 < 0x80"
            using upper_byte_ascii [of b] by simp_all
          have "b \<noteq> 0"
            using up by auto
          with True p up Cons have o: "normalizeUnicode_loop U src a
                  = (b + 0x20) # normalizeUnicode_loop U bs False"
            by (simp add: asciiTable_ascii)
          have k: "normalizeUnicode_loop U ((b + 0x20) # X) x
                  = (b + 0x20) # normalizeUnicode_loop U X False" for X x
            using up v by (intro loop_kept_byte) (simp_all add: IsPunct_lower_letter)
          show ?thesis
            unfolding o k using IH [of bs False False] by simp
        next
          case up: False
          with True p Cons have o: "normalizeUnicode_loop U src a
                  = b # normalizeUnicode_loop U bs False"
            by (auto simp: asciiTable_ascii)
          have k: "normalizeUnicode_loop U (b # X) x = b # normalizeUnicode_loop U X False"
            for X x
            using True p up by (rule loop_kept_byte)
          show ?thesis
            unfolding o k using IH [of bs False False] by simp
        qed
      qed
    next
      case False
      obtain r sz where d: "DecodeRune (b # bs) = (r, sz)"
        by (cases "DecodeRune (b # bs)")
      have sz: "1 \<le> sz" "sz - 1 \<le> length bs"
        using DecodeRune_size [OF d] by simp_all
      have t: "take sz (b # bs) = b # take (sz - 1) bs"
        using sz(1) by (cases sz) simp_all
      define X where "X = normalizeUnicode_loop U (drop (sz - 1) bs) False"
      have X: "normalizeUnicode_loop U X x = X" for x
        unfolding X_def by (rule IH) simp
      show ?thesis
      proof (cases "unicode_IsPunct U r \<or> unicode_IsSpace U r")
        case True
        show ?thesis
        proof (cases a)
          case a: True
          with True False d Cons have o: "normalizeUnicode_loop U src a
                  = normalizeUnicode_loop U (drop (sz - 1) bs) True"
            by (simp add: decodeRune_def)
          show ?thesis
            unfolding o by (rule IH) simp
        next
          case a: False
          with True False d Cons have o: "normalizeUnicode_loop U src a
                  = 0x20 # normalizeUnicode_loop U (drop (sz - 1) bs) True"
            by (simp add: decodeRune_def)
          show ?thesis
            unfolding o loop_space using IH [of "drop (sz - 1) bs" True False] by simp
        qed
      next
        case p: False
        show ?thesis
        proof (cases "unicode_IsUpper U r")
          case True
          have "normalizeUnicode_loop U (appendLower (unicode_ToLower U r) @ X) a'
                  = appendLower (unicode_ToLower U r) @ normalizeUnicode_loop U X False"
            using p True idem punct space upper by (intro loop_appendLower) auto
          moreover from False d p True Cons have "normalizeUnicode_loop U src a
                  = appendLower (unicode_ToLower U r) @ X"
            by (simp add: decodeRune_def X_def)
          ultimately show ?thesis
            by (simp add: X)
        next
          case u: False
          have o: "normalizeUnicode_loop U src a = b # take (sz - 1) bs @ X"
            using False d p u Cons t by (simp add: decodeRune_def X_def)
          have d': "DecodeRune (b # take (sz - 1) bs @ X) = (r, sz)"
          proof (cases "2 \<le> sz")
            case True
            with d show ?thesis by (rule DecodeRune_stable)
          next
            case False
            with sz have s1: "sz = 1" by simp
            have "conts k X \<Longrightarrow> conts k bs" for k
              using conts_loop [OF upper, of k bs] s1 by (simp add: X_def)
            with False d s1 DecodeRune_fails [of b bs r X] \<open>\<not> b < 0x80\<close> show ?thesis
              by simp
          qed
          have "normalizeUnicode_loop U (b # take (sz - 1) bs @ X) a'
                  = b # take (sz - 1) bs @ normalizeUnicode_loop U X False"
          proof -
            obtain n where n: "sz = Suc n"
              using sz(1) by (cases sz) auto
            with sz(2) have "n \<le> length bs"
              by simp
            with \<open>\<not> b < 0x80\<close> d' p u show ?thesis
              unfolding n by (simp add: decodeRune_def min_def)
          qed
          then show ?thesis
            by (simp add: o X)
        qed
      qed
    qed
  qed
qed

lemma AllocationEfficientNormalizer_idempotent:
  assumes "\<forall>r. unicode_ToLower U (unicode_ToLower U r) = unicode_ToLower U r"
    and "\<forall>r. \<not> unicode_IsPunct U r \<longrightarrow> \<not> unicode_IsPunct U (unicode_ToLower U r)"
    and "\<forall>r. \<not> unicode_IsSpace U r \<longrightarrow> \<not> unicode_IsSpace U (unicode_ToLower U r)"
    and "\<forall>r. valid_rune r \<longrightarrow> valid_rune (unicode_ToLower U r)"
    and "\<forall>r. unicode_IsUpper U r \<longrightarrow> valid_rune r"
  shows "AllocationEfficientNormalizer_Normalize U (AllocationEfficientNormalizer_Normalize U x)
           = AllocationEfficientNormalizer_Normalize U x"
proof -
  have "\<forall>r. unicode_IsUpper U r \<longrightarrow> valid_rune (unicode_ToLower U r)"
    using assms(4,5) by blast
  with assms(1-3) show ?thesis
    unfolding AllocationEfficientNormalizer_loop by (rule normalizeUnicode_loop_fixed)
qed

subsection \<open>Tables that classify nothing beyond ASCII\<close>

lemma ascii_only_tables_ToLower:
  "unicode_ToLower ascii_only_tables r = (if 0x41 \<le> r \<and> r \<le> 0x5A then r + 0x20 else r)"
  by (auto simp: unicode_ToLower_def ascii_only_tables_def is_ascii_rune_def)

lemma ascii_only_tables_IsPunct: "unicode_IsPunct ascii_only_tables r = (r \<in> ascii_punct)"
  by (auto simp: unicode_IsPunct_def ascii_only_tables_def is_ascii_rune_def ascii_punct_def)

lemma ascii_only_tables_IsSpace:
  "unicode_IsSpace ascii_only_tables r = ((0x09 \<le> r \<and> r \<le> 0x0D) \<or> r = 0x20)"
  by (auto simp: unicode_IsSpace_def ascii_only_tables_def is_ascii_rune_def)

lemma ascii_only_tables_IsUpper:
  "unicode_IsUpper ascii_only_tables r = (0x41 \<le> r \<and> r \<le> 0x5A)"
  by (auto simp: unicode_IsUpper_def ascii_only_tables_def is_ascii_rune_def)

lemma ascii_only_tables_lower:
  "\<forall>r. unicode_ToLower ascii_only_tables (unicode_ToLower ascii_only_tables r)
         = unicode_ToLower ascii_only_tables r"
  "\<forall>r. \<not> unicode_IsPunct ascii_only_tables r
         \<longrightarrow> \<not> unicode_IsPunct ascii_only_tables (unicode_ToLower ascii_only_tables r)"
  "\<forall>r. \<not> unicode_IsSpace ascii_only_tables r
         \<longrightarrow> \<not> unicode_IsSpace ascii_only_tables (unicode_ToLower ascii_only_tables r)"
  "\<forall>r. valid_rune r \<longrightarrow> valid_rune (unicode_ToLower ascii_only_tables r)"
  "\<forall>r. unicode_IsUpper ascii_only_tables r \<longrightarrow> valid_rune r"
  by (auto simp: ascii_only_tables_ToLower ascii_only_tables_IsPunct ascii_only_tables_IsSpace
      ascii_only_tables_IsUpper ascii_punct_def valid_rune_def)

subsection \<open>The rule of the normalizers\<close>

text \<open>
  Claim C5, as stated, fails on \<^verbatim>\<open>DefaultNormalizer\<close> and on
  \<^verbatim>\<open>AllocationEfficientNormalizer\<close>. The rule as worded gives \<^verbatim>\<open>"a b"\<close> for \<^verbatim>\<open>"a, b"\<close> and
  for \<^verbatim>\<open>"a.,b"\<close>; both normalizers return \<^verbatim>\<open>"a  b"\<close> for \<^verbatim>\<open>"a, b"\<close> (the space that replaces
  the comma is followed by the space of the text, which is not whitespace to them), and
  \<^verbatim>\<open>DefaultNormalizer\<close> returns \<^verbatim>\<open>"a  b"\<close> for \<^verbatim>\<open>"a.,b"\<close> (it does not collapse).
\<close>

theorem normalize_rule_counterexample:
  "spec_Normalize ascii_only_tables (bytes_of ''a, b'') = bytes_of ''a b''
   \<and> DefaultNormalizer_Normalize ascii_only_tables (bytes_of ''a, b'') = bytes_of ''a  b''
   \<and> AllocationEfficientNormalizer_Normalize ascii_only_tables (bytes_of ''a, b'')
       = bytes_of ''a  b''
   \<and> spec_Normalize ascii_only_tables (bytes_of ''a.,b'') = bytes_of ''a b''
   \<and> DefaultNormalizer_Normalize ascii_only_tables (bytes_of ''a.,b'') = bytes_of ''a  b''
   \<and> DefaultNormalizer_Normalize ascii_only_tables (bytes_of ''a, b'')
       \<noteq> spec_Normalize ascii_only_tables (bytes_of ''a, b'')
   \<and> AllocationEfficientNormalizer_Normalize ascii_only_tables (bytes_of ''a, b'')
       \<noteq> spec_Normalize ascii_only_tables (bytes_of ''a, b'')"
  by code_simp

text \<open>
  Claim C5, amended. \<^verbatim>\<open>OptimizedNormalizer\<close> follows the rule as worded on every text: for
  every code point, a single space for punctuation or whitespace unless the character emitted
  just before was a space, the lowercase form otherwise. \<^verbatim>\<open>DefaultNormalizer\<close> emits for every
  code point one space if its lowercase form is punctuation and the lowercase form otherwise:
  it collapses nothing and whitespace is a code point like any other. \<^verbatim>\<open>FastNormalizer\<close>
  does the same with the punctuation test on the code point itself.
  \<^verbatim>\<open>AllocationEfficientNormalizer\<close>, on ASCII text, emits for a punctuation character a single
  space unless the character emitted just before was a space that replaced punctuation, and
  for every other character, whitespace included, its lowercase form. All four map the empty
  string to the empty string. The tables of Go's \<^verbatim>\<open>unicode\<close> package are a parameter: the proof
  uses of them that \<^verbatim>\<open>unicode.ToLower\<close> maps a Unicode scalar value to a scalar value, and no
  code point other than whitespace to whitespace.
\<close>

theorem normalize_rule:
  assumes "\<forall>r. valid_rune r \<longrightarrow> valid_rune (unicode_ToLower U r)"
    and "\<forall>r. \<not> unicode_IsSpace U r \<longrightarrow> \<not> unicode_IsSpace U (unicode_ToLower U r)"
  shows "OptimizedNormalizer_Normalize U src = spec_Normalize U src
    \<and> DefaultNormalizer_Normalize U src = encode_runes (map (lower_or_space U) (runes src))
    \<and> FastNormalizer_Normalize U src = encode_runes (map (space_or_lower U) (runes src))
    \<and> (list_all (\<lambda>b. b < 0x80) src \<longrightarrow>
         AllocationEfficientNormalizer_Normalize U src
           = encode_runes (punct_rule U (runes src) False))
    \<and> OptimizedNormalizer_Normalize U [] = [] \<and> DefaultNormalizer_Normalize U [] = []
    \<and> FastNormalizer_Normalize U [] = [] \<and> AllocationEfficientNormalizer_Normalize U [] = []"
proof -
  have "OptimizedNormalizer_Normalize U src = spec_Normalize U src"
    using assms(2) by (rule OptimizedNormalizer_spec)
  moreover have "DefaultNormalizer_Normalize U src
      = encode_runes (map (lower_or_space U) (runes src))"
    using assms(1) by (rule DefaultNormalizer_runes)
  moreover have "FastNormalizer_Normalize U src
      = encode_runes (map (space_or_lower U) (runes src))"
    by (rule FastNormalizer_runes)
  moreover have "list_all (\<lambda>b. b < 0x80) src \<longrightarrow>
      AllocationEfficientNormalizer_Normalize U src = encode_runes (punct_rule U (runes src) False)"
    by (simp add: AllocationEfficientNormalizer_ascii)
  moreover have "OptimizedNormalizer_Normalize U [] = []" "FastNormalizer_Normalize U [] = []"
    "AllocationEfficientNormalizer_Normalize U [] = []"
    by (simp_all add: OptimizedNormalizer_Normalize_def FastNormalizer_Normalize_def
        AllocationEfficientNormalizer_Normalize_def)
  moreover have "DefaultNormalizer_Normalize U [] = []"
    by (simp add: DefaultNormalizer_Normalize_def strings_ToLower_def encode_runes_def)
  ultimately show ?thesis
    by simp
qed

theorem normalize_rule_witness:
  "OptimizedNormalizer_Normalize ascii_only_tables (bytes_of ''Hi, You!'')
     = spec_Normalize ascii_only_tables (bytes_of ''Hi, You!'')
   \<and> spec_Normalize ascii_only_tables (bytes_of ''Hi, You!'') = bytes_of ''hi you ''
   \<and> DefaultNormalizer_Normalize ascii_only_tables (bytes_of ''Hi, You!'')
       = encode_runes (map (lower_or_space ascii_only_tables) (runes (bytes_of ''Hi, You!'')))
   \<and> DefaultNormalizer_Normalize ascii_only_tables (bytes_of ''Hi, You!'') = bytes_of ''hi  you ''
   \<and> list_all (\<lambda>b. b < 0x80) (bytes_of ''Hi, You!'')
   \<and> AllocationEfficientNormalizer_Normalize ascii_only_tables (bytes_of ''Hi, You!'')
       = encode_runes (punct_rule ascii_only_tables (runes (bytes_of ''Hi, You!'')) False)
   \<and> AllocationEfficientNormalizer_Normalize ascii_only_tables (bytes_of ''Hi, You!'')
       = bytes_of ''hi  you ''"
proof -
  have a: "list_all (\<lambda>b. b < 0x80) (bytes_of ''Hi, You!'')"
    by code_simp
  have b: "spec_Normalize ascii_only_tables (bytes_of ''Hi, You!'') = bytes_of ''hi you ''"
    by code_simp
  have c: "DefaultNormalizer_Normalize ascii_only_tables (bytes_of ''Hi, You!'')
             = bytes_of ''hi  you ''"
    by code_simp
  have d: "AllocationEfficientNormalizer_Normalize ascii_only_tables (bytes_of ''Hi, You!'')
             = bytes_of ''hi  you ''"
    by code_simp
  from normalize_rule [OF ascii_only_tables_lower(4) ascii_only_tables_lower(3),
      of "bytes_of ''Hi, You!''"] a
  have "OptimizedNormalizer_Normalize ascii_only_tables (bytes_of ''Hi, You!'')
          = spec_Normalize ascii_only_tables (bytes_of ''Hi, You!'')"
    and "DefaultNormalizer_Normalize ascii_only_tables (bytes_of ''Hi, You!'')
       = encode_runes (map (lower_or_space ascii_only_tables) (runes (bytes_of ''Hi, You!'')))"
    and "AllocationEfficientNormalizer_Normalize ascii_only_tables (bytes_of ''Hi, You!'')
       = encode_runes (punct_rule ascii_only_tables (runes (bytes_of ''Hi, You!'')) False)"
    by blast+
  with a b c d show ?thesis
    by (simp only: simp_thms)
qed

subsection \<open>Idempotence\<close>

text \<open>
  Claim C8. For every text \<open>x\<close> and for each of the four normalizers,
  \<^verbatim>\<open>Normalize(Normalize(x)) == Normalize(x)\<close>. The tables of Go's \<^verbatim>\<open>unicode\<close> package are a
  parameter of the model, fixed on ASCII; the proof uses of them that \<^verbatim>\<open>unicode.ToLower\<close> is
  idempotent, maps no code point into punctuation or whitespace that was not there before,
  maps a Unicode scalar value to a scalar value, and that an upper case letter is a scalar
  value.
\<close>

theorem normalize_idempotent:
  assumes "\<forall>r. unicode_ToLower U (unicode_ToLower U r) = unicode_ToLower U r"
    and "\<forall>r. \<not> unicode_IsPunct U r \<longrightarrow> \<not> unicode_IsPunct U (unicode_ToLower U r)"
    and "\<forall>r. \<not> unicode_IsSpace U r \<longrightarrow> \<not> unicode_IsSpace U (unicode_ToLower U r)"
    and "\<forall>r. valid_rune r \<longrightarrow> valid_rune (unicode_ToLower U r)"
    and "\<forall>r. unicode_IsUpper U r \<longrightarrow> valid_rune r"
  shows "DefaultNormalizer_Normalize U (DefaultNormalizer_Normalize U x)
           = DefaultNormalizer_Normalize U x
    \<and> AllocationEfficientNormalizer_Normalize U (AllocationEfficientNormalizer_Normalize U x)
           = AllocationEfficientNormalizer_Normalize U x
    \<and> OptimizedNormalizer_Normalize U (OptimizedNormalizer_Normalize U x)
           = OptimizedNormalizer_Normalize U x
    \<and> FastNormalizer_Normalize U (FastNormalizer_Normalize U x) = FastNormalizer_Normalize U x"
  using DefaultNormalizer_idempotent [OF assms(1,4)]
    AllocationEfficientNormalizer_idempotent [OF assms]
    OptimizedNormalizer_idempotent [OF assms(1-4)]
    FastNormalizer_idempotent [OF assms(1,2,4)]
  by simp

theorem normalize_idempotent_witness:
  "DefaultNormalizer_Normalize ascii_only_tables (bytes_of ''Hello, World!'')
     = bytes_of ''hello  world ''
   \<and> DefaultNormalizer_Normalize ascii_only_tables (bytes_of ''hello  world '')
     = bytes_of ''hello  world ''
   \<and> AllocationEfficientNormalizer_Normalize ascii_only_tables (bytes_of ''Hello, World!'')
     = bytes_of ''hello  world ''
   \<and> AllocationEfficientNormalizer_Normalize ascii_only_tables (bytes_of ''hello  world '')
     = bytes_of ''hello  world ''
   \<and> OptimizedNormalizer_Normalize ascii_only_tables (bytes_of ''Hello, World!'')
     = bytes_of ''hello world ''
   \<and> OptimizedNormalizer_Normalize ascii_only_tables (bytes_of ''hello world '')
     = bytes_of ''hello world ''
   \<and> FastNormalizer_Normalize ascii_only_tables (bytes_of ''Hello, World!'')
     = bytes_of ''hello  world ''
   \<and> FastNormalizer_Normalize ascii_only_tables (bytes_of ''hello  world '')
     = bytes_of ''hello  world ''"
proof -
  have a: "DefaultNormalizer_Normalize ascii_only_tables (bytes_of ''Hello, World!'')
             = bytes_of ''hello  world ''"
    by code_simp
  have b: "AllocationEfficientNormalizer_Normalize ascii_only_tables (bytes_of ''Hello, World!'')
             = bytes_of ''hello  world ''"
    by code_simp
  have c: "OptimizedNormalizer_Normalize ascii_only_tables (bytes_of ''Hello, World!'')
             = bytes_of ''hello world ''"
    by code_simp
  have d: "FastNormalizer_Normalize ascii_only_tables (bytes_of ''Hello, World!'')
             = bytes_of ''hello  world ''"
    by code_simp
  from normalize_idempotent [OF ascii_only_tables_lower, of "bytes_of ''Hello, World!''"]
  show ?thesis
    unfolding a b c d by (simp only: a b c d simp_thms)
qed

end
